theory Spec2Isabelle
  imports Main "HOL-Library.Sublist"
begin

section \<open>Values, exceptions and asynchronous generators\<close>

text \<open>
  The scheduler \<^verbatim>\<open>gather_processors\<close> sends three kinds of value into a processor:
  its own leading \<^verbatim>\<open>None\<close> (\<open>Null\<close>), an element of the input iterable (\<open>Item x\<close>,
  whatever Python object \<open>x\<close> is) and the object \<^verbatim>\<open>sentinel = object()\<close> that it
  creates for the run (\<open>Sentinel\<close>). The sentinel is a fresh object, so it is identical
  to no element of the input; equality of tokens stands for Python's \<^verbatim>\<open>is\<close>.
\<close>

datatype 'a token = Null | Item 'a | Sentinel

text \<open>
  Exceptions other than \<^verbatim>\<open>StopIteration\<close> and \<^verbatim>\<open>StopAsyncIteration\<close>: the three that
  the interpreter itself raises in this program, and any other one (\<open>Other x\<close>).
\<close>

datatype 'x exn = TypeError | AttributeError | IndexError | Other 'x

text \<open>
  An asynchronous generator, seen from the code that drives it with \<^verbatim>\<open>send\<close>, is the
  behaviour it shows when it runs:
  \<^item> \<open>Await k\<close>: it suspends in \<^verbatim>\<open>await read_input_line()\<close>, so \<^verbatim>\<open>send\<close> returns; the
    value of the next \<^verbatim>\<open>send\<close> is the result of the await and the generator goes on as
    \<open>k v\<close>;
  \<^item> \<open>Yield y g\<close>: it yields \<open>y\<close>, so \<^verbatim>\<open>send\<close> raises \<^verbatim>\<open>StopIteration(y)\<close>; the next
    \<^verbatim>\<open>__anext__().send(None)\<close> resumes it as \<open>g\<close>;
  \<^item> \<open>Tau g\<close>: it takes one internal step (the \<^verbatim>\<open>send\<close> has not come back yet);
  \<^item> \<open>Done\<close>: it returns, so \<^verbatim>\<open>send\<close> raises \<^verbatim>\<open>StopAsyncIteration\<close>;
  \<^item> \<open>Raise e\<close>: it raises another exception.
  The type is coinductive: a generator may run forever.

  The two drivers of the program, \<^verbatim>\<open>unwrap_aiter\<close> and \<^verbatim>\<open>gather_processors\<close>, read the
  yielded value as \<^verbatim>\<open>exn.args[0]\<close>. When a generator yields \<^verbatim>\<open>None\<close>, the
  \<^verbatim>\<open>StopIteration\<close> that \<^verbatim>\<open>send\<close> raises has no argument, and \<^verbatim>\<open>exn.args[0]\<close> raises
  \<^verbatim>\<open>IndexError\<close>. So the generators that they drive yield values of an option type:
  \<open>None\<close> is Python's \<^verbatim>\<open>None\<close> and \<open>Some y\<close> any other object.
\<close>

codatatype ('v, 'o, 'x) agen =
    Await "'v \<Rightarrow> ('v, 'o, 'x) agen"
  | Yield 'o "('v, 'o, 'x) agen"
  | Tau "('v, 'o, 'x) agen"
  | Done
  | Raise "'x exn"

text \<open>
  The body of an \<^verbatim>\<open>async def\<close> generator function that is given one asynchronous
  iterable. It asks that iterable for its next element (\<^verbatim>\<open>async for\<close>, or
  \<^verbatim>\<open>await it.__anext__()\<close>) and goes on with the answer, it yields, it returns or it
  raises. The answer is an element, \<^verbatim>\<open>StopAsyncIteration\<close> (\<open>End\<close>) or another exception.
\<close>

datatype ('a, 'x) anext_result = Got 'a | End | Exc "'x exn"

codatatype ('a, 'o, 'x) body =
    BNext "('a, 'x) anext_result \<Rightarrow> ('a, 'o, 'x) body"
  | BYield 'o "('a, 'o, 'x) body"
  | BReturn
  | BRaise "'x exn"

text \<open>
  \<open>pipe b s\<close> is the asynchronous generator \<^verbatim>\<open>f(s)\<close> for the generator function \<^verbatim>\<open>f\<close>
  with body \<open>b\<close>. When the body asks for the next element, the source \<open>s\<close> runs: if it
  suspends, so does \<open>f(s)\<close>, and the sent value goes to the source; if it yields, the body
  goes on with the element; once it has returned or raised it is finished, and every
  later \<^verbatim>\<open>__anext__\<close> gives \<^verbatim>\<open>StopAsyncIteration\<close> at once.
\<close>

primcorec pipe :: "('a, 'o, 'x) body \<Rightarrow> ('v, 'a, 'x) agen \<Rightarrow> ('v, 'o, 'x) agen" where
  "pipe b s = (case b of
       BYield y b' \<Rightarrow> Yield y (pipe b' s)
     | BReturn \<Rightarrow> Done
     | BRaise e \<Rightarrow> Raise e
     | BNext k \<Rightarrow> (case s of
           Yield x s' \<Rightarrow> Tau (pipe (k (Got x)) s')
         | Done \<Rightarrow> Tau (pipe (k End) Done)
         | Raise e \<Rightarrow> Tau (pipe (k (Exc e)) Done)
         | Tau s' \<Rightarrow> Tau (pipe b s')
         | Await f \<Rightarrow> Await (\<lambda>v. pipe b (f v))))"

section \<open>The bridging adapter: \<^verbatim>\<open>wrap_aiter\<close>, \<^verbatim>\<open>unwrap_aiter\<close>, \<^verbatim>\<open>syncgenerator\<close>\<close>

text \<open>
  A loop that may run forever (over a generator that never stops yielding, or that never
  comes back from a \<^verbatim>\<open>send\<close>) is given a number of steps, the fuel \<open>n\<close>. A loop that
  needs more is cut off, and the run ends \<open>OutOfFuel\<close> with what it has produced so far.
  A run that ends otherwise has ended as the code does.
\<close>

datatype ('s, 'x) status = Completed 's | Aborted "'x exn" | OutOfFuel

text \<open>\<^verbatim>\<open>async def wrap_aiter(iterable): for x in iterable: yield x\<close>\<close>

fun wrap_aiter :: "'a list \<Rightarrow> ('v, 'a, 'x) agen" where
  "wrap_aiter [] = Done"
| "wrap_aiter (x # xs) = Yield x (wrap_aiter xs)"

text \<open>
  \<^verbatim>\<open>unwrap_aiter\<close>: \<^verbatim>\<open>o.send(None)\<close> in a loop. \<^verbatim>\<open>StopIteration\<close> yields \<^verbatim>\<open>exn.args[0]\<close>
  (which raises \<^verbatim>\<open>IndexError\<close> out of \<^verbatim>\<open>unwrap_aiter\<close> when the value is \<^verbatim>\<open>None\<close>) and
  takes a new \<^verbatim>\<open>__anext__()\<close>; \<^verbatim>\<open>StopAsyncIteration\<close> leaves the loop; any other
  exception leaves the generator; when \<^verbatim>\<open>send\<close> returns, the loop sends \<^verbatim>\<open>None\<close> again,
  into the await.
\<close>

fun unwrap_aiter ::
  "nat \<Rightarrow> ('a token, 'o option, 'x) agen \<Rightarrow> 'o option list \<times> (unit, 'x) status" where
  "unwrap_aiter 0 g = ([], OutOfFuel)"
| "unwrap_aiter (Suc n) g = (case g of
       Tau g' \<Rightarrow> unwrap_aiter n g'
     | Yield y g' \<Rightarrow> (case y of
           None \<Rightarrow> ([], Aborted IndexError)
         | Some v \<Rightarrow> (case unwrap_aiter n g' of (ys, st) \<Rightarrow> (Some v # ys, st)))
     | Done \<Rightarrow> ([], Completed ())
     | Raise e \<Rightarrow> ([], Aborted e)
     | Await k \<Rightarrow> unwrap_aiter n (k Null))"

text \<open>
  \<^verbatim>\<open>wrapper(iterable)\<close> tests \<^verbatim>\<open>hasattr(iterable, '__aiter__')\<close>: its argument is an
  asynchronous iterable or a plain one, and its result an asynchronous generator or a
  plain generator (which is run with fuel).
\<close>

datatype ('v, 'a, 'x) iterable = AsyncIterable "('v, 'a, 'x) agen" | Iterable "'a list"

datatype ('v, 'o, 'x) generator =
    AsyncGenerator "('v, 'o, 'x) agen"
  | Generator "nat \<Rightarrow> 'o list \<times> (unit, 'x) status"

definition syncgenerator ::
  "(('b token, 'a, 'x) agen \<Rightarrow> ('b token, 'o option, 'x) agen) \<Rightarrow>
   ('b token, 'a, 'x) iterable \<Rightarrow> ('b token, 'o option, 'x) generator" where
  "syncgenerator async_generator_function iterable =
     (case iterable of
        AsyncIterable s \<Rightarrow> AsyncGenerator (async_generator_function s)
      | Iterable xs \<Rightarrow>
          Generator (\<lambda>n. unwrap_aiter n (async_generator_function (wrap_aiter xs))))"

text \<open>
  The reference of the specification, "a direct synchronous execution of the body over
  the sequence": the body is run on the list itself, each request for the next element
  answered from the list, and every value that the body yields is an output.
\<close>

fun run_direct :: "nat \<Rightarrow> ('a, 'o, 'x) body \<Rightarrow> 'a list \<Rightarrow> 'o list \<times> (unit, 'x) status" where
  "run_direct 0 b xs = ([], OutOfFuel)"
| "run_direct (Suc n) b xs = (case b of
       BNext k \<Rightarrow> (case xs of
           [] \<Rightarrow> run_direct n (k End) []
         | x # xs' \<Rightarrow> run_direct n (k (Got x)) xs')
     | BYield y b' \<Rightarrow> (case run_direct n b' xs of (ys, st) \<Rightarrow> (y # ys, st))
     | BReturn \<Rightarrow> ([], Completed ())
     | BRaise e \<Rightarrow> ([], Aborted e))"

text \<open>
  \<^verbatim>\<open>list(g)\<close> for the result \<open>g\<close> of the wrapper, as in the assertion of the source: a plain
  generator is run to its end; an asynchronous generator is not iterable.
\<close>

fun iterate :: "nat \<Rightarrow> ('v, 'o, 'x) generator \<Rightarrow> 'o list \<times> (unit, 'x) status" where
  "iterate n (Generator f) = f n"
| "iterate n (AsyncGenerator g) = ([], Aborted TypeError)"

text \<open>
  The body of \<^verbatim>\<open>async def echo(it): async for x in it: yield x\<close>, by the place it is at:
  at the head of the loop, at the yield (with the element), at the return, or raising.
\<close>

datatype ('a, 'x) echo_pc =
    is_head: AtHead
  | is_elem: AtElem (elem: 'a)
  | is_end: AtEnd
  | AtExc (exc: "'x exn")

fun echo_after :: "('a, 'x) anext_result \<Rightarrow> ('a, 'x) echo_pc" where
  "echo_after (Got x) = AtElem x"
| "echo_after End = AtEnd"
| "echo_after (Exc e) = AtExc e"

primcorec echo_from :: "('a, 'x) echo_pc \<Rightarrow> ('a, 'a, 'x) body" where
  "echo_from pc =
     (if is_head pc then BNext (\<lambda>r. echo_from (echo_after r))
      else if is_elem pc then BYield (elem pc) (echo_from AtHead)
      else if is_end pc then BReturn
      else BRaise (exc pc))"

definition echo :: "('a, 'a, 'x) body" where
  "echo = echo_from AtHead"

section \<open>The suspension primitive and the input relay\<close>

text \<open>
  \<^verbatim>\<open>read_input_line.__await__\<close> is \<^verbatim>\<open>return (yield None)\<close>: one suspension, whose result
  is the value that the driver sends. The code after the await is the continuation.
\<close>

definition read_input_line :: "('v \<Rightarrow> ('v, 'o, 'x) agen) \<Rightarrow> ('v, 'o, 'x) agen" where
  "read_input_line k = Await k"

text \<open>
  \<^verbatim>\<open>read_input_lines(sentinel)\<close> loops: await a line; return if it \<^verbatim>\<open>is sentinel\<close>; yield
  it. The three places of the loop are the states of \<open>relay\<close>.
\<close>

datatype 'v relay_pc = is_await: AtAwait | is_yield: AtYield (held: 'v) | AtReturn

primcorec relay :: "'v \<Rightarrow> 'v relay_pc \<Rightarrow> ('v, 'v, 'x) agen" where
  "relay sentinel pc =
     (if is_await pc then
        Await (\<lambda>line. relay sentinel (if line = sentinel then AtReturn else AtYield line))
      else if is_yield pc then Yield (held pc) (relay sentinel AtAwait)
      else Done)"

definition read_input_lines :: "'v \<Rightarrow> ('v, 'v, 'x) agen" where
  "read_input_lines sentinel = relay sentinel AtAwait"

text \<open>
  A driver that answers each suspension of an asynchronous generator from a list of
  values, and records what it sees: \<open>Asked v\<close> for a suspension answered with \<open>v\<close>,
  \<open>Elem y\<close> for a yielded element.
\<close>

datatype ('v, 'o) obs = Asked 'v | Elem 'o

datatype 'x ending = Ended | Waiting | Failed "'x exn" | Cut

fun feed_values :: "nat \<Rightarrow> ('v, 'o, 'x) agen \<Rightarrow> 'v list \<Rightarrow> ('v, 'o) obs list \<times> 'x ending" where
  "feed_values 0 g vs = ([], Cut)"
| "feed_values (Suc n) g vs = (case g of
       Await k \<Rightarrow> (case vs of
           [] \<Rightarrow> ([], Waiting)
         | v # vs' \<Rightarrow> (case feed_values n (k v) vs' of (tr, r) \<Rightarrow> (Asked v # tr, r)))
     | Yield y g' \<Rightarrow> (case feed_values n g' vs of (tr, r) \<Rightarrow> (Elem y # tr, r))
     | Tau g' \<Rightarrow> feed_values n g' vs
     | Done \<Rightarrow> ([], Ended)
     | Raise e \<Rightarrow> ([], Failed e))"

section \<open>The scheduler \<^verbatim>\<open>gather_processors\<close>\<close>

text \<open>
  \<^verbatim>\<open>gens[i]\<close> is \<^verbatim>\<open>None\<close> (\<open>GNone\<close>) or an awaitable made by \<^verbatim>\<open>__anext__()\<close>: one that has
  not been sent anything, on a generator that has not started (\<open>Fresh g\<close>), or one that
  is suspended in an await (\<open>Suspended k\<close>).
\<close>

datatype ('v, 'o, 'x) gen =
    Fresh "('v, 'o, 'x) agen"
  | Suspended "'v \<Rightarrow> ('v, 'o, 'x) agen"
  | GNone

text \<open>
  What a run does, in order. \<open>pos\<close> is the position of the current \<^verbatim>\<open>line\<close> in the feed
  and \<open>i\<close> the index of the processor:
  \<^item> \<open>Start pos i v\<close>: \<^verbatim>\<open>gens[i].send(line)\<close> starts a generator (which takes no value);
  \<^item> \<open>Resume pos i v\<close>: \<^verbatim>\<open>gens[i].send(line)\<close> resumes an await, whose result is \<open>v\<close>;
  \<^item> \<open>Emit pos i y\<close>: \<^verbatim>\<open>yield i, exn.args[0]\<close>, where \<^verbatim>\<open>exn.args[0]\<close> is the object \<open>y\<close>;
  \<^item> \<open>Stop pos i\<close>: \<^verbatim>\<open>gens[i] = None\<close>.
  Only the \<open>Emit\<close> events are visible to the caller.
\<close>

datatype ('a, 'o) event =
    Start nat nat "'a token"
  | Resume nat nat "'a token"
  | Emit nat nat 'o
  | Stop nat nat

datatype ('g, 'x) outcome = Broke 'g | Raised "'x exn" | Hung

text \<open>
  The \<^verbatim>\<open>while True\<close> loop, from a \<^verbatim>\<open>send\<close> that is running the generator as \<open>g\<close>:
  \<^verbatim>\<open>StopIteration\<close> yields the event, sets \<^verbatim>\<open>to_send = None\<close>, takes a new
  \<^verbatim>\<open>__anext__()\<close> and sends again, which resumes the generator after its yield;
  \<^verbatim>\<open>StopAsyncIteration\<close> sets \<^verbatim>\<open>gens[i] = None\<close> and breaks; a \<^verbatim>\<open>send\<close> that returns
  breaks; any other exception leaves the scheduler. When the generator has yielded
  \<^verbatim>\<open>None\<close>, \<^verbatim>\<open>exn.args[0]\<close> raises \<^verbatim>\<open>IndexError\<close> in the handler, before anything is
  yielded, and that exception leaves the scheduler too.
\<close>

fun send_loop ::
  "nat \<Rightarrow> nat \<Rightarrow> nat \<Rightarrow> ('a token, 'o option, 'x) agen \<Rightarrow>
   ('a, 'o) event list \<times> (('a token, 'o option, 'x) gen, 'x) outcome" where
  "send_loop 0 pos i g = ([], Hung)"
| "send_loop (Suc n) pos i g = (case g of
       Tau g' \<Rightarrow> send_loop n pos i g'
     | Yield y g' \<Rightarrow> (case y of
           None \<Rightarrow> ([], Raised IndexError)
         | Some v \<Rightarrow> (case send_loop n pos i g' of (tr, r) \<Rightarrow> (Emit pos i v # tr, r)))
     | Await k \<Rightarrow> ([], Broke (Suspended k))
     | Done \<Rightarrow> ([Stop pos i], Broke GNone)
     | Raise e \<Rightarrow> ([], Raised e))"

text \<open>
  The body of \<^verbatim>\<open>for i in range(len(processors))\<close> for one \<open>i\<close>: skip a processor whose
  entry is \<^verbatim>\<open>None\<close>, else send \<^verbatim>\<open>line\<close> and loop. A generator that has not started
  accepts only \<^verbatim>\<open>None\<close>.
\<close>

fun advance ::
  "nat \<Rightarrow> nat \<Rightarrow> nat \<Rightarrow> ('a token, 'o option, 'x) gen \<Rightarrow> 'a token \<Rightarrow>
   ('a, 'o) event list \<times> (('a token, 'o option, 'x) gen, 'x) outcome" where
  "advance n pos i GNone line = ([], Broke GNone)"
| "advance n pos i (Fresh g) line =
     (if line = Null then (case send_loop n pos i g of (tr, r) \<Rightarrow> (Start pos i line # tr, r))
      else ([Start pos i line], Raised TypeError))"
| "advance n pos i (Suspended k) line =
     (case send_loop n pos i (k line) of (tr, r) \<Rightarrow> (Resume pos i line # tr, r))"

fun for_processors ::
  "nat \<Rightarrow> nat \<Rightarrow> 'a token \<Rightarrow> nat list \<Rightarrow> ('a token, 'o option, 'x) gen list \<Rightarrow>
   ('a, 'o) event list \<times> (('a token, 'o option, 'x) gen list, 'x) status" where
  "for_processors n pos line [] gens = ([], Completed gens)"
| "for_processors n pos line (i # is) gens =
     (case advance n pos i (gens ! i) line of
        (tr, Broke g) \<Rightarrow>
          (case for_processors n pos line is (gens[i := g]) of (tr', st) \<Rightarrow> (tr @ tr', st))
      | (tr, Raised e) \<Rightarrow> (tr, Aborted e)
      | (tr, Hung) \<Rightarrow> (tr, OutOfFuel))"

fun for_lines ::
  "nat \<Rightarrow> nat \<Rightarrow> 'a token list \<Rightarrow> ('a token, 'o option, 'x) gen list \<Rightarrow>
   ('a, 'o) event list \<times> (('a token, 'o option, 'x) gen list, 'x) status" where
  "for_lines n pos [] gens = ([], Completed gens)"
| "for_lines n pos (line # lines) gens =
     (case for_processors n pos line [0..<length gens] gens of
        (tr, Completed gens') \<Rightarrow>
          (case for_lines n (Suc pos) lines gens' of (tr', st) \<Rightarrow> (tr @ tr', st))
      | (tr, Aborted e) \<Rightarrow> (tr, Aborted e)
      | (tr, OutOfFuel) \<Rightarrow> (tr, OutOfFuel))"

text \<open>\<^verbatim>\<open>itertools.chain([None], iterable, [sentinel])\<close>\<close>

definition effective_feed :: "'a list \<Rightarrow> 'a token list" where
  "effective_feed iterable = [Null] @ map Item iterable @ [Sentinel]"

text \<open>The loops of \<^verbatim>\<open>gather_processors\<close> on the asynchronous generators \<open>iters\<close>.\<close>

definition run_processors ::
  "nat \<Rightarrow> ('a token, 'o option, 'x) agen list \<Rightarrow> 'a list \<Rightarrow>
   ('a, 'o) event list \<times> (('a token, 'o option, 'x) gen list, 'x) status" where
  "run_processors n iters iterable = for_lines n 0 (effective_feed iterable) (map Fresh iters)"

text \<open>
  The \<open>Emit\<close> events of a trace with the position of the line that was being processed,
  and the pairs \<^verbatim>\<open>(i, exn.args[0])\<close> that the caller of \<^verbatim>\<open>gather_processors\<close> receives.
\<close>

fun emitted :: "('a, 'o) event list \<Rightarrow> (nat \<times> nat \<times> 'o) list" where
  "emitted [] = []"
| "emitted (Emit pos i y # tr) = (pos, i, y) # emitted tr"
| "emitted (e # tr) = emitted tr"

definition yielded :: "('a, 'o) event list \<Rightarrow> (nat \<times> 'o) list" where
  "yielded tr = map snd (emitted tr)"

fun aiter :: "('v, 'o, 'x) generator \<Rightarrow> ('v, 'o, 'x) agen option" where
  "aiter (AsyncGenerator g) = Some g"
| "aiter (Generator f) = None"

fun those_aiters :: "('v, 'o, 'x) generator list \<Rightarrow> ('v, 'o, 'x) agen list option" where
  "those_aiters [] = Some []"
| "those_aiters (p # ps) =
     (case aiter p of None \<Rightarrow> None
      | Some g \<Rightarrow> (case those_aiters ps of None \<Rightarrow> None | Some gs \<Rightarrow> Some (g # gs)))"

fun how_ended :: "('s, 'x) status \<Rightarrow> (unit, 'x) status" where
  "how_ended (Completed s) = Completed ()"
| "how_ended (Aborted e) = Aborted e"
| "how_ended OutOfFuel = OutOfFuel"

text \<open>
  \<^verbatim>\<open>gather_processors(processor_functions, iterable)\<close>: each processor function is called
  with its own \<^verbatim>\<open>read_input_lines(sentinel)\<close>; a result without \<^verbatim>\<open>__aiter__\<close> is an
  \<^verbatim>\<open>AttributeError\<close> before anything is yielded. The result is the list of the yielded
  pairs and how the generator ended.
\<close>

definition gather_processors ::
  "nat \<Rightarrow> (('a token, 'a token, 'x) iterable \<Rightarrow> ('a token, 'o option, 'x) generator) list \<Rightarrow>
   'a list \<Rightarrow> (nat \<times> 'o) list \<times> (unit, 'x) status" where
  "gather_processors n processor_functions iterable =
     (let processors = map (\<lambda>p. p (AsyncIterable (read_input_lines Sentinel))) processor_functions
      in case those_aiters processors of
           None \<Rightarrow> ([], Aborted AttributeError)
         | Some iters \<Rightarrow>
             (case run_processors n iters iterable of (tr, st) \<Rightarrow> (yielded tr, how_ended st)))"

section \<open>Reading a trace\<close>

fun proc_of :: "('a, 'o) event \<Rightarrow> nat" where
  "proc_of (Start pos i v) = i"
| "proc_of (Resume pos i v) = i"
| "proc_of (Emit pos i y) = i"
| "proc_of (Stop pos i) = i"

fun pos_of :: "('a, 'o) event \<Rightarrow> nat" where
  "pos_of (Start pos i v) = pos"
| "pos_of (Resume pos i v) = pos"
| "pos_of (Emit pos i y) = pos"
| "pos_of (Stop pos i) = pos"

text \<open>The events of processor \<open>i\<close>.\<close>

definition events_of :: "nat \<Rightarrow> ('a, 'o) event list \<Rightarrow> ('a, 'o) event list" where
  "events_of i tr = filter (\<lambda>e. proc_of e = i) tr"

text \<open>The lines sent (\<open>delivered\<close>), and those that became the result of an await.\<close>

fun delivered :: "('a, 'o) event list \<Rightarrow> 'a token list" where
  "delivered [] = []"
| "delivered (Start pos i v # tr) = v # delivered tr"
| "delivered (Resume pos i v # tr) = v # delivered tr"
| "delivered (e # tr) = delivered tr"

fun consumed :: "('a, 'o) event list \<Rightarrow> 'a token list" where
  "consumed [] = []"
| "consumed (Resume pos i v # tr) = v # consumed tr"
| "consumed (e # tr) = consumed tr"

text \<open>The event of the first \<^verbatim>\<open>send\<close> of a turn, which depends on the entry it is sent to.\<close>

fun first_event ::
  "nat \<Rightarrow> nat \<Rightarrow> ('a token, 'o option, 'x) gen \<Rightarrow> 'a token \<Rightarrow> ('a, 'o) event list" where
  "first_event pos i GNone line = []"
| "first_event pos i (Fresh g) line = [Start pos i line]"
| "first_event pos i (Suspended k) line = [Resume pos i line]"

text \<open>
  One processor on its own: what the two \<^verbatim>\<open>for\<close> loops do to the entry \<open>g\<close> of
  processor \<open>i\<close> when no other processor is there.
\<close>

fun solo ::
  "nat \<Rightarrow> nat \<Rightarrow> nat \<Rightarrow> 'a token list \<Rightarrow> ('a token, 'o option, 'x) gen \<Rightarrow>
   ('a, 'o) event list \<times> (('a token, 'o option, 'x) gen, 'x) status" where
  "solo n i pos [] g = ([], Completed g)"
| "solo n i pos (line # lines) g =
     (case advance n pos i g line of
        (tr, Broke g') \<Rightarrow> (case solo n i (Suc pos) lines g' of (tr', st) \<Rightarrow> (tr @ tr', st))
      | (tr, Raised e) \<Rightarrow> (tr, Aborted e)
      | (tr, Hung) \<Rightarrow> (tr, OutOfFuel))"

text \<open>
  The order of the output events: by the position of the line in the feed, then by the
  index of the processor. \<open>turn_le\<close> is the same order on all events of a trace.
\<close>

definition key_le :: "nat \<times> nat \<times> 'o \<Rightarrow> nat \<times> nat \<times> 'o \<Rightarrow> bool" where
  "key_le a b \<longleftrightarrow> fst a < fst b \<or> (fst a = fst b \<and> fst (snd a) \<le> fst (snd b))"

definition turn_le :: "('a, 'o) event \<Rightarrow> ('a, 'o) event \<Rightarrow> bool" where
  "turn_le a b \<longleftrightarrow> pos_of a < pos_of b \<or> (pos_of a = pos_of b \<and> proc_of a \<le> proc_of b)"

text \<open>
  A turn is opened by a \<^verbatim>\<open>send\<close> of a line to a processor and closed by its return or
  by the next \<^verbatim>\<open>send\<close>. \<open>in_turns cur tr\<close> reads the trace \<open>tr\<close> from the open turn \<open>cur\<close>
  (the position and the processor of the latest \<^verbatim>\<open>send\<close>, if any) and tells whether
  every yield and every return is of the turn that is open when it happens.
\<close>

fun in_turns :: "(nat \<times> nat) option \<Rightarrow> ('a, 'o) event list \<Rightarrow> bool" where
  "in_turns cur [] = True"
| "in_turns cur (Start pos i v # tr) = in_turns (Some (pos, i)) tr"
| "in_turns cur (Resume pos i v # tr) = in_turns (Some (pos, i)) tr"
| "in_turns cur (Emit pos i y # tr) = (cur = Some (pos, i) \<and> in_turns cur tr)"
| "in_turns cur (Stop pos i # tr) = (cur = Some (pos, i) \<and> in_turns None tr)"

text \<open>
  What the generator of a processor has done, read off the events of that processor: the
  awaits that were answered, each with its value, and the values that it yielded. The
  driver \<open>feed_values\<close> of the relay section records the same of a generator that is
  driven on its own, outside any scheduler.
\<close>

fun obs_of :: "('a, 'o) event list \<Rightarrow> ('a token, 'o option) obs list" where
  "obs_of [] = []"
| "obs_of (Resume pos i v # tr) = Asked v # obs_of tr"
| "obs_of (Emit pos i y # tr) = Elem (Some y) # obs_of tr"
| "obs_of (e # tr) = obs_of tr"

text \<open>
  The generator behind an entry of \<^verbatim>\<open>gens\<close>: one that has not started, one that is
  suspended in an await, one that has returned.
\<close>

fun agen_of :: "('v, 'o, 'x) gen \<Rightarrow> ('v, 'o, 'x) agen" where
  "agen_of (Fresh g) = g"
| "agen_of (Suspended k) = Await k"
| "agen_of GNone = Done"

text \<open>\<^verbatim>\<open>gens[i] is None\<close>, and the same for every entry at the end of a completed run.\<close>

fun terminated :: "('v, 'o, 'x) gen \<Rightarrow> bool" where
  "terminated GNone = True"
| "terminated g = False"

fun terminated_at_end :: "(('v, 'o, 'x) gen list, 'x) status \<Rightarrow> bool list option" where
  "terminated_at_end (Completed gens) = Some (map terminated gens)"
| "terminated_at_end st = None"

text \<open>
  The entries of processors that read their input through the relay only: not started,
  or suspended in the relay's await on behalf of a body that asked for the next line.
\<close>

definition relay_fed :: "('a token, 'o, 'x) gen \<Rightarrow> bool" where
  "relay_fed g \<longleftrightarrow>
     g = GNone \<or> (\<exists>b. g = Fresh (pipe b (relay Sentinel AtAwait))) \<or>
     (\<exists>k. g = Suspended (\<lambda>v. pipe (BNext k)
                (relay Sentinel (if v = Sentinel then AtReturn else AtYield v))))"

section \<open>The processor \<^verbatim>\<open>exclaim_async_iterable\<close> and other processors\<close>

text \<open>\<^verbatim>\<open>line.endswith('!')\<close>\<close>

definition endswith :: "string \<Rightarrow> string \<Rightarrow> bool" where
  "endswith s t \<longleftrightarrow> length t \<le> length s \<and> drop (length s - length t) s = t"

text \<open>
  The body of \<^verbatim>\<open>exclaim_async_iterable\<close>, by the place it is at: before the first yield,
  at the head of the \<^verbatim>\<open>async for\<close>, at the yield in the loop (with the line), at a
  return, or raising. A line that is not a string has no \<^verbatim>\<open>endswith\<close>. Python's
  \<^verbatim>\<open>'%r'\<close> is the parameter \<open>repr\<close>.
\<close>

datatype 'x exclaim_pc =
    is_hello: AtHello
  | is_for: AtFor
  | is_yell: AtYell (yelled_line: string)
  | is_return: AtReturnE
  | AtRaise (raised: "'x exn")

fun after_line :: "(string token, 'x) anext_result \<Rightarrow> 'x exclaim_pc" where
  "after_line (Got (Item line)) =
     (if endswith line ''!'' then AtYell line
      else if line = ''Goodbye!'' then AtReturnE else AtFor)"
| "after_line (Got Null) = AtRaise AttributeError"
| "after_line (Got Sentinel) = AtRaise AttributeError"
| "after_line End = AtReturnE"
| "after_line (Exc e) = AtRaise e"

definition after_yell :: "string \<Rightarrow> 'x exclaim_pc" where
  "after_yell line = (if line = ''Goodbye!'' then AtReturnE else AtFor)"

primcorec exclaim_from ::
  "(string \<Rightarrow> string) \<Rightarrow> 'x exclaim_pc \<Rightarrow> (string token, string option, 'x) body" where
  "exclaim_from repr pc =
     (if is_hello pc then BYield (Some ''Hello world!'') (exclaim_from repr AtFor)
      else if is_for pc then BNext (\<lambda>r. exclaim_from repr (after_line r))
      else if is_yell pc then
        BYield (Some (''Someone yelled '' @ repr (yelled_line pc)))
          (exclaim_from repr (after_yell (yelled_line pc)))
      else if is_return pc then BReturn
      else BRaise (raised pc))"

definition exclaim_async_iterable ::
  "(string \<Rightarrow> string) \<Rightarrow> ('b token, string token, 'x) iterable \<Rightarrow>
   ('b token, string option, 'x) generator" where
  "exclaim_async_iterable repr = syncgenerator (pipe (exclaim_from repr AtHello))"

text \<open>\<^verbatim>\<open>'%r'\<close> of a string of printable characters without quote or backslash.\<close>

definition quoted :: "string \<Rightarrow> string" where
  "quoted s = [CHR 0x27] @ s @ [CHR 0x27]"

text \<open>
  Processors that use the suspension primitive themselves: \<open>listener k\<close> awaits \<open>k\<close>
  lines and returns; \<open>lingering\<close> awaits two lines, whatever they are.
\<close>

fun listener :: "nat \<Rightarrow> ('v, 'o, 'x) agen" where
  "listener 0 = Done"
| "listener (Suc k) = read_input_line (\<lambda>line. listener k)"

definition lingering :: "('a token, 'o, 'x) agen" where
  "lingering = read_input_line (\<lambda>line. read_input_line (\<lambda>line'. Done))"

text \<open>The processors and the lines of the examples.\<close>

definition example_processors :: "nat \<Rightarrow> (string token, string option, unit) agen list" where
  "example_processors k =
     [pipe (exclaim_from quoted AtHello) (read_input_lines Sentinel), listener k]"

definition example_lines :: "string list" where
  "example_lines = [''Goodbye!'', ''late'']"

definition failing_processors :: "(unit token, nat option, unit) agen list" where
  "failing_processors =
     [Yield (Some 3) (read_input_line (\<lambda>line. Yield (Some 4) Done)),
      Yield (Some 1) (read_input_line (\<lambda>line. Yield (Some 2) (Raise (Other ())))),
      Yield (Some 5) (read_input_line (\<lambda>line. Yield (Some 6) Done))]"

text \<open>Two processors that yield twice before each await.\<close>

definition chatty_processors :: "(unit token, nat option, unit) agen list" where
  "chatty_processors =
     [Yield (Some 1) (Yield (Some 2) (read_input_line (\<lambda>line.
        Yield (Some 3) (Yield (Some 4) (read_input_line (\<lambda>line'. Done)))))),
      Yield (Some 5) (Yield (Some 6) (read_input_line (\<lambda>line.
        Yield (Some 7) (Yield (Some 8) (read_input_line (\<lambda>line'. Done))))))]"

text \<open>
  The body of \<^verbatim>\<open>async def p(lines): async for line in lines: break\<close> followed by
  \<^verbatim>\<open>raise Exception()\<close>: it raises as soon as its input has given a line or has ended.
  \<open>raising_processors\<close> is that processor and \<^verbatim>\<open>exclaim_async_iterable\<close>, both reading from
  the relay; \<open>mixed_processors\<close> is \<^verbatim>\<open>exclaim_async_iterable\<close> and \<open>lingering\<close>.
\<close>

definition raise_after_first :: "('a, 'o, unit) body" where
  "raise_after_first = BNext (\<lambda>r. case r of Exc e \<Rightarrow> BRaise e | _ \<Rightarrow> BRaise (Other ()))"

definition raising_processors :: "(string token, string option, unit) agen list" where
  "raising_processors =
     [pipe raise_after_first (read_input_lines Sentinel),
      pipe (exclaim_from quoted AtHello) (read_input_lines Sentinel)]"

definition mixed_processors :: "(string token, string option, unit) agen list" where
  "mixed_processors = [pipe (exclaim_from quoted AtHello) (read_input_lines Sentinel), lingering]"

section \<open>Unfolding the corecursive definitions\<close>

lemma pipe_BYield: "pipe (BYield y b) s = Yield y (pipe b s)"
  by (subst pipe.code) simp

lemma pipe_BReturn: "pipe BReturn s = Done"
  by (subst pipe.code) simp

lemma pipe_BRaise: "pipe (BRaise e) s = Raise e"
  by (subst pipe.code) simp

lemma pipe_BNext_Yield: "pipe (BNext k) (Yield x s) = Tau (pipe (k (Got x)) s)"
  by (subst pipe.code) simp

lemma pipe_BNext_Done: "pipe (BNext k) Done = Tau (pipe (k End) Done)"
  by (subst pipe.code) simp

lemma pipe_BNext_Raise: "pipe (BNext k) (Raise e) = Tau (pipe (k (Exc e)) Done)"
  by (subst pipe.code) simp

lemma pipe_BNext_Tau: "pipe (BNext k) (Tau s) = Tau (pipe (BNext k) s)"
  by (subst pipe.code) simp

lemma pipe_BNext_Await: "pipe (BNext k) (Await f) = Await (\<lambda>v. pipe (BNext k) (f v))"
  by (subst pipe.code) simp

lemmas pipe_simps = pipe_BYield pipe_BReturn pipe_BRaise pipe_BNext_Yield pipe_BNext_Done
  pipe_BNext_Raise pipe_BNext_Tau pipe_BNext_Await

lemma relay_AtAwait:
  "relay s AtAwait = Await (\<lambda>line. relay s (if line = s then AtReturn else AtYield line))"
  by (subst relay.code) simp

lemma relay_AtYield: "relay s (AtYield v) = Yield v (relay s AtAwait)"
  by (subst relay.code) simp

lemma relay_AtReturn: "relay s AtReturn = Done"
  by (subst relay.code) simp

text \<open>The relay as the source has it: await, test, yield, again.\<close>

lemma read_input_lines_unfold:
  "read_input_lines s =
     read_input_line (\<lambda>line. if line = s then Done else Yield line (read_input_lines s))"
  unfolding read_input_lines_def read_input_line_def
  by (subst relay_AtAwait) (auto simp: relay_AtYield relay_AtReturn)

section \<open>The bridging adapter\<close>

lemma echo_AtHead: "echo_from AtHead = BNext (\<lambda>r. echo_from (echo_after r))"
  by (subst echo_from.code) simp

lemma echo_AtElem: "echo_from (AtElem x) = BYield x (echo_from AtHead)"
  by (subst echo_from.code) simp

lemma echo_AtEnd: "echo_from AtEnd = BReturn"
  by (subst echo_from.code) simp

lemma echo_AtExc: "echo_from (AtExc e) = BRaise e"
  by (subst echo_from.code) simp

lemmas echo_simps = echo_def echo_AtHead echo_AtElem echo_AtEnd echo_AtExc

text \<open>
  What the adapted call does, against the direct run of the body: the same, as long as
  the body yields no \<^verbatim>\<open>None\<close>; at the first \<^verbatim>\<open>None\<close> it raises \<^verbatim>\<open>IndexError\<close> instead of
  yielding it.
\<close>

lemma unwrap_pipe_wrap:
  "unwrap_aiter n (pipe b (wrap_aiter xs)) =
     (if None \<in> set (fst (run_direct n b xs))
      then (takeWhile (\<lambda>y. y \<noteq> None) (fst (run_direct n b xs)), Aborted IndexError)
      else run_direct n b xs)"
proof (induction n arbitrary: b xs)
  case 0
  show ?case by simp
next
  case (Suc n)
  show ?case
  proof (cases b)
    case (BNext k)
    show ?thesis
    proof (cases xs)
      case Nil
      then show ?thesis using BNext Suc[of "k End" "[]"] by (simp add: pipe_simps)
    next
      case (Cons x xs')
      then show ?thesis using BNext Suc[of "k (Got x)" xs'] by (simp add: pipe_simps)
    qed
  next
    case (BYield y b')
    obtain ys st where rd: "run_direct n b' xs = (ys, st)" by (cases "run_direct n b' xs")
    show ?thesis
    proof (cases y)
      case None
      with BYield rd show ?thesis by (simp add: pipe_simps)
    next
      case (Some v)
      with BYield rd Suc[of b' xs] show ?thesis by (simp add: pipe_simps)
    qed
  next
    case BReturn
    then show ?thesis by (simp add: pipe_simps)
  next
    case (BRaise e)
    then show ?thesis by (simp add: pipe_simps)
  qed
qed

lemma syncgenerator_direct_run:
  "None \<notin> set (fst (run_direct n b xs)) \<Longrightarrow>
     iterate n (syncgenerator (pipe b) (Iterable xs)) = run_direct n b xs"
  by (simp add: syncgenerator_def unwrap_pipe_wrap)

text \<open>
  Claim C1. The adapted call and the direct run of the body differ when the body yields
  \<^verbatim>\<open>None\<close>. For \<^verbatim>\<open>echo\<close> on the list \<^verbatim>\<open>[1, None, 2]\<close> the direct run yields the three
  elements and ends normally; \<^verbatim>\<open>list(syncgenerator(echo)([1, None, 2]))\<close> yields \<^verbatim>\<open>1\<close> and
  then raises \<^verbatim>\<open>IndexError\<close> from \<^verbatim>\<open>exn.args[0]\<close> in \<^verbatim>\<open>unwrap_aiter\<close>.
\<close>

theorem syncgenerator_raises_at_none:
  "iterate 9 (syncgenerator (pipe echo) (Iterable [Some 1, None, Some 2])
       :: (unit token, nat option, unit) generator)
     = ([Some 1], Aborted IndexError) \<and>
   run_direct 9 (echo :: (nat option, nat option, unit) body) [Some 1, None, Some 2]
     = ([Some 1, None, Some 2], Completed ())"
  by (simp add: syncgenerator_def pipe_simps echo_simps eval_nat_numeral)

lemma unwrap_wrap:
  "length xs < n \<Longrightarrow>
     unwrap_aiter n (wrap_aiter xs) =
       (takeWhile (\<lambda>x. x \<noteq> None) xs,
        if None \<in> set xs then Aborted IndexError else Completed ())"
proof (induction xs arbitrary: n)
  case Nil
  then show ?case by (cases n) simp_all
next
  case (Cons x xs)
  then show ?case by (cases n; cases x) simp_all
qed

text \<open>
  Claim C10. Unwrapping a wrapped list does not give back every list: the elements
  before the first \<^verbatim>\<open>None\<close> are yielded, and at the \<^verbatim>\<open>None\<close> \<^verbatim>\<open>exn.args[0]\<close> raises
  \<^verbatim>\<open>IndexError\<close>. Here \<^verbatim>\<open>unwrap_aiter(wrap_aiter([7, None, 8]))\<close> yields \<^verbatim>\<open>7\<close> and raises.
\<close>

theorem unwrap_wrap_raises_at_none:
  "unwrap_aiter 4 (wrap_aiter [Some 7, None, Some 8] :: (unit token, nat option, unit) agen)
     = ([Some 7], Aborted IndexError)"
  by (simp add: eval_nat_numeral)

section \<open>The input relay\<close>

lemma feed_relay:
  "2 * length vs < n \<Longrightarrow>
   feed_values n (relay s AtAwait) vs =
     (concat (map (\<lambda>v. [Asked v, Elem v]) (takeWhile (\<lambda>v. v \<noteq> s) vs))
        @ (if s \<in> set vs then [Asked s] else []),
      if s \<in> set vs then Ended else Waiting)"
proof (induction vs arbitrary: n)
  case Nil
  then show ?case by (cases n) (simp_all add: relay_AtAwait)
next
  case (Cons v vs)
  then obtain m where n: "n = Suc (Suc m)" and m: "2 * length vs < m"
    by (cases n; cases "n - 1") auto
  show ?case
  proof (cases "v = s")
    case True
    then show ?thesis using n by (simp add: relay_AtAwait relay_AtReturn)
  next
    case False
    then show ?thesis using n Cons.IH[OF m] by (simp add: relay_AtAwait relay_AtYield)
  qed
qed

text \<open>
  Claim C6. Driven with the values \<open>vs\<close>, \<^verbatim>\<open>read_input_lines(sentinel)\<close> suspends once
  for each element it yields, yields every value sent before the first one that is the
  sentinel, unchanged and in order, and returns when it is sent the sentinel, which it
  does not yield. If the sentinel is never sent, it is left waiting.
\<close>

theorem read_input_lines_relays:
  "2 * length vs < n \<Longrightarrow>
   feed_values n (read_input_lines sentinel) vs =
     (concat (map (\<lambda>v. [Asked v, Elem v]) (takeWhile (\<lambda>v. v \<noteq> sentinel) vs))
        @ (if sentinel \<in> set vs then [Asked sentinel] else []),
      if sentinel \<in> set vs then Ended else Waiting)"
  unfolding read_input_lines_def by (rule feed_relay)

theorem read_input_lines_relays_witness:
  "2 * length [Item (1::nat), Null, Sentinel, Item 2] < 9 \<and>
   feed_values 9 (read_input_lines Sentinel :: (nat token, nat token, unit) agen)
       [Item 1, Null, Sentinel, Item 2]
     = ([Asked (Item 1), Elem (Item 1), Asked Null, Elem Null, Asked Sentinel], Ended)"
  using read_input_lines_relays [of "[Item (1::nat), Null, Sentinel, Item 2]" 9 Sentinel]
  by simp

section \<open>The scheduler: the events of one turn, of one line, of a run\<close>

lemma events_of_append [simp]: "events_of i (tr @ tr') = events_of i tr @ events_of i tr'"
  by (simp add: events_of_def)

lemma events_of_Nil [simp]: "events_of i [] = []"
  by (simp add: events_of_def)

lemma delivered_append [simp]: "delivered (tr @ tr') = delivered tr @ delivered tr'"
  by (induction tr rule: delivered.induct) simp_all

lemma consumed_append [simp]: "consumed (tr @ tr') = consumed tr @ consumed tr'"
  by (induction tr rule: consumed.induct) simp_all

lemma emitted_append [simp]: "emitted (tr @ tr') = emitted tr @ emitted tr'"
  by (induction tr rule: emitted.induct) simp_all

lemma send_loop_shape:
  "send_loop n pos i g = (tr, r) \<Longrightarrow>
   \<exists>ys. tr = map (Emit pos i) ys @ (if r = Broke GNone then [Stop pos i] else [])
        \<and> (\<forall>g'. r \<noteq> Broke (Fresh g'))"
proof (induction n arbitrary: g tr r)
  case 0
  then show ?case by auto
next
  case (Suc n)
  show ?case
  proof (cases g)
    case (Await k)
    with Suc.prems show ?thesis by auto
  next
    case (Yield y g')
    show ?thesis
    proof (cases y)
      case None
      with Suc.prems Yield show ?thesis by auto
    next
      case (Some v)
      obtain tr' r' where sl: "send_loop n pos i g' = (tr', r')" by (cases "send_loop n pos i g'")
      with Suc.prems Yield Some have tr: "tr = Emit pos i v # tr'" and r: "r = r'" by auto
      from Suc.IH[OF sl] obtain ys where
        "tr' = map (Emit pos i) ys @ (if r' = Broke GNone then [Stop pos i] else [])"
        "\<forall>g'. r' \<noteq> Broke (Fresh g')" by blast
      then have "tr = map (Emit pos i) (v # ys) @ (if r = Broke GNone then [Stop pos i] else [])"
        using tr r by simp
      then show ?thesis using \<open>\<forall>g'. r' \<noteq> Broke (Fresh g')\<close> r by blast
    qed
  next
    case (Tau g')
    with Suc show ?thesis by auto
  next
    case Done
    with Suc.prems show ?thesis by auto
  next
    case (Raise e)
    with Suc.prems show ?thesis by auto
  qed
qed

lemma advance_shape:
  assumes "advance n pos i g line = (tr, r)"
  shows "\<exists>ys. tr = first_event pos i g line
            @ map (Emit pos i) ys @ (if r = Broke GNone \<and> g \<noteq> GNone then [Stop pos i] else [])"
    and "\<forall>g'. r \<noteq> Broke (Fresh g')"
    and "g = GNone \<Longrightarrow> r = Broke GNone"
proof -
  show "\<exists>ys. tr = first_event pos i g line
            @ map (Emit pos i) ys @ (if r = Broke GNone \<and> g \<noteq> GNone then [Stop pos i] else [])"
  proof (cases g)
    case (Fresh g0)
    show ?thesis
    proof (cases "line = Null")
      case True
      obtain tr' r' where sl: "send_loop n pos i g0 = (tr', r')" by (cases "send_loop n pos i g0")
      from send_loop_shape[OF sl] assms Fresh True sl show ?thesis by auto
    next
      case False
      with assms Fresh show ?thesis by auto
    qed
  next
    case (Suspended k)
    obtain tr' r' where sl: "send_loop n pos i (k line) = (tr', r')" by (cases "send_loop n pos i (k line)")
    from send_loop_shape[OF sl] assms Suspended sl show ?thesis by auto
  next
    case GNone
    with assms show ?thesis by auto
  qed
  show "\<forall>g'. r \<noteq> Broke (Fresh g')"
  proof (cases g)
    case (Fresh g0)
    obtain tr' r' where sl: "send_loop n pos i g0 = (tr', r')" by (cases "send_loop n pos i g0")
    from send_loop_shape[OF sl] assms Fresh sl show ?thesis by (auto split: if_splits)
  next
    case (Suspended k)
    obtain tr' r' where sl: "send_loop n pos i (k line) = (tr', r')" by (cases "send_loop n pos i (k line)")
    from send_loop_shape[OF sl] assms Suspended sl show ?thesis by auto
  next
    case GNone
    with assms show ?thesis by auto
  qed
  show "g = GNone \<Longrightarrow> r = Broke GNone" using assms by auto
qed

lemma advance_proc_of:
  assumes "advance n pos i g line = (tr, r)"
  shows "\<forall>e \<in> set tr. proc_of e = i \<and> pos_of e = pos"
  using advance_shape(1)[OF assms] by (cases g) (auto split: if_splits)

lemma advance_events_of:
  assumes "advance n pos i g line = (tr, r)"
  shows "events_of j tr = (if j = i then tr else [])"
  using advance_proc_of[OF assms] by (auto simp: events_of_def filter_empty_conv filter_id_conv)

lemma for_processors_inv:
  "for_processors n pos line is gens = (tr, st) \<Longrightarrow> distinct is \<Longrightarrow>
   (\<forall>i\<in>set is. i < length gens) \<Longrightarrow>
     (\<forall>j. j \<notin> set is \<longrightarrow> events_of j tr = []) \<and>
     (\<forall>j\<in>set is. events_of j tr = [] \<or> events_of j tr = fst (advance n pos j (gens ! j) line)) \<and>
     (\<forall>e\<in>set tr. pos_of e = pos \<and> proc_of e \<in> set is) \<and>
     (\<forall>gens'. st = Completed gens' \<longrightarrow> length gens' = length gens \<and>
        (\<forall>j. j \<notin> set is \<longrightarrow> gens' ! j = gens ! j) \<and>
        (\<forall>j\<in>set is. advance n pos j (gens ! j) line = (events_of j tr, Broke (gens' ! j))))"
proof (induction "is" arbitrary: gens tr st)
  case Nil
  then show ?case by auto
next
  case (Cons i "is")
  obtain tr1 r1 where adv: "advance n pos i (gens ! i) line = (tr1, r1)"
    by (cases "advance n pos i (gens ! i) line")
  note ev1 = advance_events_of[OF adv]
  note pp1 = advance_proc_of[OF adv]
  from Cons.prems have i_notin: "i \<notin> set is" and dist: "distinct is"
    and i_len: "i < length gens" and is_len: "\<forall>j\<in>set is. j < length gens" by auto
  show ?case
  proof (cases r1)
    case (Broke g)
    obtain tr2 st2 where rest: "for_processors n pos line is (gens[i := g]) = (tr2, st2)"
      by (cases "for_processors n pos line is (gens[i := g])")
    from Cons.prems(1) adv Broke rest have tr: "tr = tr1 @ tr2" and st: "st = st2" by auto
    from is_len have is_len': "\<forall>j\<in>set is. j < length (gens[i := g])" by simp
    note IH = Cons.IH[OF rest dist is_len']
    have nth_other: "gens[i := g] ! j = gens ! j" if "j \<in> set is" for j
      using that i_notin by (metis nth_list_update_neq)
    have A: "\<forall>j. j \<notin> set (i # is) \<longrightarrow> events_of j tr = []"
      using IH ev1 tr by auto
    have B: "\<forall>j\<in>set (i # is). events_of j tr = [] \<or>
               events_of j tr = fst (advance n pos j (gens ! j) line)"
    proof
      fix j assume "j \<in> set (i # is)"
      then consider "j = i" | "j \<in> set is" "j \<noteq> i" using i_notin by auto
      then show "events_of j tr = [] \<or> events_of j tr = fst (advance n pos j (gens ! j) line)"
      proof cases
        case 1
        with IH i_notin have "events_of j tr2 = []" by blast
        with 1 ev1 tr adv show ?thesis by simp
      next
        case 2
        with IH nth_other have "events_of j tr2 = [] \<or>
            events_of j tr2 = fst (advance n pos j (gens ! j) line)" by auto
        with 2 ev1 tr show ?thesis by simp
      qed
    qed
    have C: "\<forall>e\<in>set tr. pos_of e = pos \<and> proc_of e \<in> set (i # is)"
      using IH pp1 tr by auto
    have D: "\<forall>gens'. st = Completed gens' \<longrightarrow> length gens' = length gens \<and>
        (\<forall>j. j \<notin> set (i # is) \<longrightarrow> gens' ! j = gens ! j) \<and>
        (\<forall>j\<in>set (i # is). advance n pos j (gens ! j) line = (events_of j tr, Broke (gens' ! j)))"
    proof (intro allI impI)
      fix gens' assume c: "st = Completed gens'"
      with IH st have len: "length gens' = length gens"
        and other: "\<forall>j. j \<notin> set is \<longrightarrow> gens' ! j = gens[i := g] ! j"
        and inn: "\<forall>j\<in>set is. advance n pos j (gens[i := g] ! j) line = (events_of j tr2, Broke (gens' ! j))"
        by auto
      have "gens' ! i = g" using other i_notin i_len by simp
      moreover have "events_of i tr2 = []" using IH i_notin by blast
      ultimately have I: "advance n pos i (gens ! i) line = (events_of i tr, Broke (gens' ! i))"
        using adv Broke tr ev1 by simp
      have J: "advance n pos j (gens ! j) line = (events_of j tr, Broke (gens' ! j))"
        if "j \<in> set is" for j
      proof -
        from that i_notin have "j \<noteq> i" by auto
        then have "events_of j tr = events_of j tr2" using tr ev1 by simp
        with inn that nth_other show ?thesis by auto
      qed
      have K: "\<forall>j. j \<notin> set (i # is) \<longrightarrow> gens' ! j = gens ! j"
        using other by auto
      show "length gens' = length gens \<and>
        (\<forall>j. j \<notin> set (i # is) \<longrightarrow> gens' ! j = gens ! j) \<and>
        (\<forall>j\<in>set (i # is). advance n pos j (gens ! j) line = (events_of j tr, Broke (gens' ! j)))"
        using len I J K by auto
    qed
    from A B C D show ?thesis by blast
  next
    case (Raised e)
    with Cons.prems(1) adv have "tr = tr1" "st = Aborted e" by auto
    with ev1 pp1 adv show ?thesis by auto
  next
    case Hung
    with Cons.prems(1) adv have "tr = tr1" "st = OutOfFuel" by auto
    with ev1 pp1 adv show ?thesis by auto
  qed
qed

lemma for_processors_range:
  assumes "for_processors n pos line [0..<length gens] gens = (tr, st)"
  shows "\<forall>e\<in>set tr. pos_of e = pos \<and> proc_of e < length gens"
    and "j < length gens \<Longrightarrow>
           events_of j tr = [] \<or> events_of j tr = fst (advance n pos j (gens ! j) line)"
    and "st = Completed gens' \<Longrightarrow> length gens' = length gens"
    and "st = Completed gens' \<Longrightarrow> j < length gens \<Longrightarrow>
           advance n pos j (gens ! j) line = (events_of j tr, Broke (gens' ! j))"
proof -
  have d: "distinct [0..<length gens]" by simp
  have l: "\<forall>i\<in>set [0..<length gens]. i < length gens" by simp
  note inv = for_processors_inv[OF assms d l]
  from inv have "\<forall>e\<in>set tr. pos_of e = pos \<and> proc_of e \<in> set [0..<length gens]" by blast
  then show "\<forall>e\<in>set tr. pos_of e = pos \<and> proc_of e < length gens" by simp
  from inv have "\<forall>j\<in>set [0..<length gens]. events_of j tr = [] \<or>
      events_of j tr = fst (advance n pos j (gens ! j) line)" by blast
  then show "j < length gens \<Longrightarrow>
      events_of j tr = [] \<or> events_of j tr = fst (advance n pos j (gens ! j) line)" by simp
  from inv have c: "\<forall>gens'. st = Completed gens' \<longrightarrow> length gens' = length gens \<and>
        (\<forall>j. j \<notin> set [0..<length gens] \<longrightarrow> gens' ! j = gens ! j) \<and>
        (\<forall>j\<in>set [0..<length gens].
           advance n pos j (gens ! j) line = (events_of j tr, Broke (gens' ! j)))" by blast
  from c show "st = Completed gens' \<Longrightarrow> length gens' = length gens" by blast
  from c have "st = Completed gens' \<Longrightarrow> \<forall>j\<in>set [0..<length gens].
           advance n pos j (gens ! j) line = (events_of j tr, Broke (gens' ! j))" by blast
  then show "st = Completed gens' \<Longrightarrow> j < length gens \<Longrightarrow>
           advance n pos j (gens ! j) line = (events_of j tr, Broke (gens' ! j))" by simp
qed

lemma solo_fst_prefix:
  assumes "advance n pos i g line = (tr, r)"
  shows "prefix tr (fst (solo n i pos (line # lines) g))"
proof (cases r)
  case (Broke g')
  obtain tr' st where "solo n i (Suc pos) lines g' = (tr', st)"
    by (cases "solo n i (Suc pos) lines g'")
  with assms Broke have "fst (solo n i pos (line # lines) g) = tr @ tr'" by simp
  then show ?thesis by simp
next
  case (Raised e)
  with assms show ?thesis by simp
next
  case Hung
  with assms show ?thesis by simp
qed

lemma for_lines_project:
  "for_lines n pos lines gens = (tr, st) \<Longrightarrow> i < length gens \<Longrightarrow>
     prefix (events_of i tr) (fst (solo n i pos lines (gens ! i))) \<and>
     (\<forall>gens'. st = Completed gens' \<longrightarrow> length gens' = length gens \<and>
         solo n i pos lines (gens ! i) = (events_of i tr, Completed (gens' ! i)))"
proof (induction lines arbitrary: pos gens tr st)
  case Nil
  then show ?case by auto
next
  case (Cons line lines)
  obtain tr1 st1 where fp: "for_processors n pos line [0..<length gens] gens = (tr1, st1)"
    by (cases "for_processors n pos line [0..<length gens] gens")
  note R = for_processors_range[OF fp]
  obtain trA rA where adv: "advance n pos i (gens ! i) line = (trA, rA)"
    by (cases "advance n pos i (gens ! i) line")
  show ?case
  proof (cases st1)
    case (Completed gens1)
    obtain tr2 st2 where rest: "for_lines n (Suc pos) lines gens1 = (tr2, st2)"
      by (cases "for_lines n (Suc pos) lines gens1")
    from Cons.prems(1) fp Completed rest have tr: "tr = tr1 @ tr2" and st: "st = st2" by auto
    from R(3)[OF Completed] have len: "length gens1 = length gens" .
    from R(4)[OF Completed Cons.prems(2)]
    have a: "advance n pos i (gens ! i) line = (events_of i tr1, Broke (gens1 ! i))" .
    from Cons.prems(2) len have "i < length gens1" by simp
    note IH = Cons.IH[OF rest this]
    obtain trS stS where s: "solo n i (Suc pos) lines (gens1 ! i) = (trS, stS)"
      by (cases "solo n i (Suc pos) lines (gens1 ! i)")
    have "fst (solo n i pos (line # lines) (gens ! i)) = events_of i tr1 @ trS"
      using a s by simp
    moreover have "prefix (events_of i tr2) trS" using IH s by simp
    ultimately have P: "prefix (events_of i tr) (fst (solo n i pos (line # lines) (gens ! i)))"
      using tr by simp
    have Q: "\<forall>gens'. st = Completed gens' \<longrightarrow> length gens' = length gens \<and>
         solo n i pos (line # lines) (gens ! i) = (events_of i tr, Completed (gens' ! i))"
      using IH a st tr len by auto
    from P Q show ?thesis by blast
  next
    case (Aborted e)
    with Cons.prems(1) fp have "tr = tr1" "st = Aborted e" by auto
    with R(2)[OF Cons.prems(2)] solo_fst_prefix[OF adv] adv show ?thesis by auto
  next
    case OutOfFuel
    with Cons.prems(1) fp have "tr = tr1" "st = OutOfFuel" by auto
    with R(2)[OF Cons.prems(2)] solo_fst_prefix[OF adv] adv show ?thesis by auto
  qed
qed

lemma for_lines_procs:
  "for_lines n pos lines gens = (tr, st) \<Longrightarrow> \<forall>e\<in>set tr. pos \<le> pos_of e \<and> proc_of e < length gens"
proof (induction lines arbitrary: pos gens tr st)
  case Nil
  then show ?case by auto
next
  case (Cons line lines)
  obtain tr1 st1 where fp: "for_processors n pos line [0..<length gens] gens = (tr1, st1)"
    by (cases "for_processors n pos line [0..<length gens] gens")
  note R = for_processors_range[OF fp]
  show ?case
  proof (cases st1)
    case (Completed gens1)
    obtain tr2 st2 where rest: "for_lines n (Suc pos) lines gens1 = (tr2, st2)"
      by (cases "for_lines n (Suc pos) lines gens1")
    from Cons.prems(1) fp Completed rest have tr: "tr = tr1 @ tr2" by auto
    from Cons.IH[OF rest] R(3)[OF Completed]
    have "\<forall>e\<in>set tr2. Suc pos \<le> pos_of e \<and> proc_of e < length gens" by simp
    with R(1) tr show ?thesis by fastforce
  next
    case (Aborted e)
    with Cons.prems(1) fp R(1) show ?thesis by auto
  next
    case OutOfFuel
    with Cons.prems(1) fp R(1) show ?thesis by auto
  qed
qed

section \<open>One processor on its own\<close>

lemma delivered_emits [simp]: "delivered (map (Emit pos i) ys) = []"
  by (induction ys) simp_all

lemma consumed_emits [simp]: "consumed (map (Emit pos i) ys) = []"
  by (induction ys) simp_all

lemma emitted_emits [simp]: "emitted (map (Emit pos i) ys) = map (\<lambda>y. (pos, i, y)) ys"
  by (induction ys) simp_all

lemma not_in_emits [simp]:
  "Stop p j \<notin> Emit pos i ` S"
  "Start p j v \<notin> Emit pos i ` S"
  "Resume p j v \<notin> Emit pos i ` S"
  by auto

lemma solo_GNone: "solo n i pos lines GNone = ([], Completed GNone)"
  by (induction lines arbitrary: pos) simp_all

lemma solo_Cons_cases:
  assumes "solo n i pos (l # ls) g = (tr, st)" and "g \<noteq> GNone"
  obtains (stops) ys where
      "tr = first_event pos i g l @ map (Emit pos i) ys @ [Stop pos i]" "st = Completed GNone"
    | (goes_on) ys k tr2 where
      "tr = first_event pos i g l @ map (Emit pos i) ys @ tr2"
      "solo n i (Suc pos) ls (Suspended k) = (tr2, st)"
    | (ends) ys where
      "tr = first_event pos i g l @ map (Emit pos i) ys" "\<forall>g'. st \<noteq> Completed g'"
proof -
  obtain tr1 r1 where adv: "advance n pos i g l = (tr1, r1)"
    by (cases "advance n pos i g l")
  from advance_shape(1)[OF adv] assms(2) obtain ys where
    tr1: "tr1 = first_event pos i g l @ map (Emit pos i) ys
            @ (if r1 = Broke GNone then [Stop pos i] else [])" by auto
  show thesis
  proof (cases r1)
    case (Broke g')
    show ?thesis
    proof (cases g')
      case (Fresh g0)
      with advance_shape(2)[OF adv] Broke show ?thesis by simp
    next
      case (Suspended k)
      obtain tr2 st2 where s2: "solo n i (Suc pos) ls (Suspended k) = (tr2, st2)"
        by (cases "solo n i (Suc pos) ls (Suspended k)")
      with assms(1) adv Broke Suspended have "tr = tr1 @ tr2" "st = st2" by auto
      with tr1 Broke Suspended s2 show ?thesis by (intro goes_on[of ys tr2 k]) auto
    next
      case GNone
      with assms(1) adv Broke have "tr = tr1" "st = Completed GNone"
        by (auto simp: solo_GNone)
      with tr1 Broke GNone show ?thesis by (intro stops[of ys]) auto
    qed
  next
    case (Raised e)
    with assms(1) adv have "tr = tr1" "st = Aborted e" by auto
    with tr1 Raised show ?thesis by (intro ends[of ys]) auto
  next
    case Hung
    with assms(1) adv have "tr = tr1" "st = OutOfFuel" by auto
    with tr1 Hung show ?thesis by (intro ends[of ys]) auto
  qed
qed

lemma delivered_first_event: "g \<noteq> GNone \<Longrightarrow> delivered (first_event pos i g l) = [l]"
  by (cases g) simp_all

lemma solo_delivered_prefix: "solo n i pos lines g = (tr, st) \<Longrightarrow> prefix (delivered tr) lines"
proof (induction lines arbitrary: pos g tr st)
  case Nil
  then show ?case by simp
next
  case (Cons l ls)
  show ?case
  proof (cases "g = GNone")
    case True
    with Cons.prems show ?thesis by (simp add: solo_GNone)
  next
    case False
    from Cons.prems False show ?thesis
    proof (cases rule: solo_Cons_cases)
      case (stops ys)
      then show ?thesis using False by (simp add: delivered_first_event)
    next
      case (goes_on ys k tr2)
      from Cons.IH[OF goes_on(2)] goes_on(1) False show ?thesis
        by (simp add: delivered_first_event)
    next
      case (ends ys)
      then show ?thesis using False by (simp add: delivered_first_event)
    qed
  qed
qed

lemma solo_Suspended_consumed:
  "solo n i pos lines (Suspended k) = (tr, st) \<Longrightarrow>
     consumed tr = delivered tr \<and> (\<forall>p j v. Start p j v \<notin> set tr) \<and>
     (\<forall>p j v. Resume p j v \<in> set tr \<longrightarrow> pos \<le> p)"
proof (induction lines arbitrary: pos k tr st)
  case Nil
  then show ?case by simp
next
  case (Cons l ls)
  have ne: "Suspended k \<noteq> GNone" by simp
  from Cons.prems ne show ?case
  proof (cases rule: solo_Cons_cases)
    case (stops ys)
    then show ?thesis by auto
  next
    case (goes_on ys k' tr2)
    from Cons.IH[OF goes_on(2)] have
      ih: "consumed tr2 = delivered tr2" "\<forall>p j v. Start p j v \<notin> set tr2"
        "\<forall>p j v. Resume p j v \<in> set tr2 \<longrightarrow> pos \<le> p"
      using Suc_leD by blast+
    with goes_on(1) show ?thesis by auto
  next
    case (ends ys)
    then show ?thesis by auto
  qed
qed

lemma solo_Fresh_consumed:
  assumes "solo n i pos lines (Fresh g0) = (tr, st)"
  shows "consumed tr = tl (delivered tr)"
    and "\<forall>p j v. Start p j v \<in> set tr \<longrightarrow> p = pos \<and> lines \<noteq> [] \<and> v = hd lines"
    and "\<forall>p j v. Resume p j v \<in> set tr \<longrightarrow> pos < p"
proof -
  have "consumed tr = tl (delivered tr) \<and>
    (\<forall>p j v. Start p j v \<in> set tr \<longrightarrow> p = pos \<and> lines \<noteq> [] \<and> v = hd lines) \<and>
    (\<forall>p j v. Resume p j v \<in> set tr \<longrightarrow> pos < p)"
  proof (cases lines)
    case Nil
    with assms show ?thesis by simp
  next
    case (Cons l ls)
    have ne: "Fresh g0 \<noteq> GNone" by simp
    from assms[unfolded Cons] ne show ?thesis
    proof (cases rule: solo_Cons_cases)
      case (stops ys)
      then show ?thesis using Cons by auto
    next
      case (goes_on ys k' tr2)
      from solo_Suspended_consumed[OF goes_on(2)] have
        ih: "consumed tr2 = delivered tr2" "\<forall>p j v. Start p j v \<notin> set tr2"
          "\<forall>p j v. Resume p j v \<in> set tr2 \<longrightarrow> pos < p"
        using Suc_le_lessD by blast+
      with goes_on(1) Cons show ?thesis by auto
    next
      case (ends ys)
      then show ?thesis using Cons by auto
    qed
  qed
  then show "consumed tr = tl (delivered tr)"
    and "\<forall>p j v. Start p j v \<in> set tr \<longrightarrow> p = pos \<and> lines \<noteq> [] \<and> v = hd lines"
    and "\<forall>p j v. Resume p j v \<in> set tr \<longrightarrow> pos < p" by blast+
qed

lemma stop_notin_first_event [simp]: "Stop p j \<notin> set (first_event pos i g l)"
  by (cases g) simp_all

lemma solo_Stop:
  "solo n i pos lines g = (tr, st) \<Longrightarrow> Stop p j \<in> set tr \<Longrightarrow>
     j = i \<and> pos \<le> p \<and> st = Completed GNone \<and> delivered tr = take (Suc (p - pos)) lines \<and>
     (\<exists>tr0. tr = tr0 @ [Stop p i] \<and> (\<forall>q j'. Stop q j' \<notin> set tr0))"
proof (induction lines arbitrary: pos g tr st)
  case Nil
  then show ?case by simp
next
  case (Cons l ls)
  show ?case
  proof (cases "g = GNone")
    case True
    with Cons.prems show ?thesis by (simp add: solo_GNone)
  next
    case False
    from Cons.prems(1) False show ?thesis
    proof (cases rule: solo_Cons_cases)
      case (stops ys)
      with Cons.prems(2) have pj: "p = pos" "j = i" by auto
      have "\<forall>q j'. Stop q j' \<notin> set (first_event pos i g l @ map (Emit pos i) ys)" by simp
      with stops pj have "\<exists>tr0. tr = tr0 @ [Stop p i] \<and> (\<forall>q j'. Stop q j' \<notin> set tr0)"
        by (intro exI[of _ "first_event pos i g l @ map (Emit pos i) ys"]) simp
      moreover have "delivered tr = take (Suc (p - pos)) (l # ls)"
        using stops pj False by (simp add: delivered_first_event)
      ultimately show ?thesis using stops pj by simp
    next
      case (goes_on ys k tr2)
      with Cons.prems(2) have "Stop p j \<in> set tr2" by simp
      from Cons.IH[OF goes_on(2) this] obtain tr0 where
        ih: "j = i" "Suc pos \<le> p" "st = Completed GNone"
          "delivered tr2 = take (Suc (p - Suc pos)) ls"
          "tr2 = tr0 @ [Stop p i]" "\<forall>q j'. Stop q j' \<notin> set tr0" by blast
      have "\<forall>q j'. Stop q j' \<notin> set (first_event pos i g l @ map (Emit pos i) ys @ tr0)"
        using ih(6) by simp
      moreover have "tr = (first_event pos i g l @ map (Emit pos i) ys @ tr0) @ [Stop p i]"
        using goes_on(1) ih(5) by simp
      ultimately have "\<exists>tr0. tr = tr0 @ [Stop p i] \<and> (\<forall>q j'. Stop q j' \<notin> set tr0)" by blast
      moreover have "p - pos = Suc (p - Suc pos)" using ih(2) by simp
      then have "delivered tr = take (Suc (p - pos)) (l # ls)"
        using goes_on(1) ih(4) False by (simp add: delivered_first_event)
      ultimately show ?thesis using ih by simp
    next
      case (ends ys)
      with Cons.prems(2) show ?thesis by simp
    qed
  qed
qed

lemma solo_no_Stop:
  "solo n i pos lines g = (tr, Completed g') \<Longrightarrow> g \<noteq> GNone \<Longrightarrow>
     \<forall>p. Stop p i \<notin> set tr \<Longrightarrow> delivered tr = lines \<and> g' \<noteq> GNone"
proof (induction lines arbitrary: pos g tr)
  case Nil
  then show ?case by simp
next
  case (Cons l ls)
  from Cons.prems(1,2) show ?case
  proof (cases rule: solo_Cons_cases)
    case (stops ys)
    with Cons.prems(3) show ?thesis by simp
  next
    case (goes_on ys k tr2)
    have "\<forall>p. Stop p i \<notin> set tr2" using Cons.prems(3) goes_on(1) by simp
    from Cons.IH[OF goes_on(2) _ this] goes_on(1) Cons.prems(2) show ?thesis
      by (simp add: delivered_first_event)
  next
    case (ends ys)
    then show ?thesis by simp
  qed
qed

section \<open>Fuel\<close>

text \<open>
  A run that was not cut off is the same run with more fuel: the fuel only decides where
  a run that needs more steps is cut.
\<close>

lemma send_loop_more_fuel:
  "send_loop n pos i g = (tr, r) \<Longrightarrow> r \<noteq> Hung \<Longrightarrow> send_loop (n + k) pos i g = (tr, r)"
proof (induction n arbitrary: g tr r)
  case 0
  then show ?case by simp
next
  case (Suc n)
  show ?case
  proof (cases g)
    case (Await f)
    with Suc.prems show ?thesis by simp
  next
    case (Yield y g')
    show ?thesis
    proof (cases y)
      case None
      with Suc.prems Yield show ?thesis by simp
    next
      case (Some v)
      obtain tr' r' where sl: "send_loop n pos i g' = (tr', r')" by (cases "send_loop n pos i g'")
      with Suc.prems Yield Some have "tr = Emit pos i v # tr'" "r = r'" by auto
      with Suc.IH[OF sl] Suc.prems(2) Yield Some show ?thesis by simp
    qed
  next
    case (Tau g')
    with Suc show ?thesis by simp
  next
    case Done
    with Suc.prems show ?thesis by simp
  next
    case (Raise e)
    with Suc.prems show ?thesis by simp
  qed
qed

lemma advance_more_fuel:
  assumes "advance n pos i g line = (tr, r)" and "r \<noteq> Hung"
  shows "advance (n + k) pos i g line = (tr, r)"
proof (cases g)
  case (Fresh g0)
  show ?thesis
  proof (cases "line = Null")
    case True
    obtain tr' r' where sl: "send_loop n pos i g0 = (tr', r')" by (cases "send_loop n pos i g0")
    with assms Fresh True have "tr = Start pos i line # tr'" "r = r'" by auto
    with send_loop_more_fuel[OF sl] assms(2) Fresh True show ?thesis by simp
  next
    case False
    with assms Fresh show ?thesis by simp
  qed
next
  case (Suspended f)
  obtain tr' r' where sl: "send_loop n pos i (f line) = (tr', r')"
    by (cases "send_loop n pos i (f line)")
  with assms Suspended have "tr = Resume pos i line # tr'" "r = r'" by auto
  with send_loop_more_fuel[OF sl] assms(2) Suspended show ?thesis by simp
next
  case GNone
  with assms show ?thesis by simp
qed

lemma for_processors_more_fuel:
  "for_processors n pos line is gens = (tr, st) \<Longrightarrow> st \<noteq> OutOfFuel \<Longrightarrow>
     for_processors (n + k) pos line is gens = (tr, st)"
proof (induction "is" arbitrary: gens tr st)
  case Nil
  then show ?case by simp
next
  case (Cons i "is")
  obtain tr1 r1 where adv: "advance n pos i (gens ! i) line = (tr1, r1)"
    by (cases "advance n pos i (gens ! i) line")
  show ?case
  proof (cases r1)
    case (Broke g)
    obtain tr2 st2 where rest: "for_processors n pos line is (gens[i := g]) = (tr2, st2)"
      by (cases "for_processors n pos line is (gens[i := g])")
    with Cons.prems adv Broke have "tr = tr1 @ tr2" "st = st2" by auto
    with Cons.IH[OF rest] Cons.prems(2) advance_more_fuel[OF adv, of k] Broke
    show ?thesis by simp
  next
    case (Raised e)
    with Cons.prems adv have "tr = tr1" "st = Aborted e" by auto
    with adv Raised advance_more_fuel[OF adv, of k] show ?thesis by simp
  next
    case Hung
    with Cons.prems adv show ?thesis by simp
  qed
qed

lemma for_lines_more_fuel:
  "for_lines n pos lines gens = (tr, st) \<Longrightarrow> st \<noteq> OutOfFuel \<Longrightarrow>
     for_lines (n + k) pos lines gens = (tr, st)"
proof (induction lines arbitrary: pos gens tr st)
  case Nil
  then show ?case by simp
next
  case (Cons line lines)
  obtain tr1 st1 where fp: "for_processors n pos line [0..<length gens] gens = (tr1, st1)"
    by (cases "for_processors n pos line [0..<length gens] gens")
  show ?case
  proof (cases st1)
    case (Completed gens1)
    obtain tr2 st2 where rest: "for_lines n (Suc pos) lines gens1 = (tr2, st2)"
      by (cases "for_lines n (Suc pos) lines gens1")
    with Cons.prems fp Completed have "tr = tr1 @ tr2" "st = st2" by auto
    with Cons.IH[OF rest] Cons.prems(2) for_processors_more_fuel[OF fp, of k] Completed
    show ?thesis by simp
  next
    case (Aborted e)
    with Cons.prems fp have "tr = tr1" "st = Aborted e" by auto
    with fp Aborted for_processors_more_fuel[OF fp, of k] show ?thesis by simp
  next
    case OutOfFuel
    with Cons.prems fp show ?thesis by simp
  qed
qed

lemma run_processors_more_fuel:
  "run_processors n ps xs = (tr, st) \<Longrightarrow> st \<noteq> OutOfFuel \<Longrightarrow>
     run_processors (n + k) ps xs = (tr, st)"
  unfolding run_processors_def by (rule for_lines_more_fuel)

section \<open>The example processors, unfolded\<close>

lemma exclaim_AtHello:
  "exclaim_from repr AtHello = BYield (Some ''Hello world!'') (exclaim_from repr AtFor)"
  by (subst exclaim_from.code) simp

lemma exclaim_AtFor: "exclaim_from repr AtFor = BNext (\<lambda>r. exclaim_from repr (after_line r))"
  by (subst exclaim_from.code) simp

lemma exclaim_AtYell:
  "exclaim_from repr (AtYell line) =
     BYield (Some (''Someone yelled '' @ repr line)) (exclaim_from repr (after_yell line))"
  by (subst exclaim_from.code) simp

lemma exclaim_AtReturnE: "exclaim_from repr AtReturnE = BReturn"
  by (subst exclaim_from.code) simp

lemma exclaim_AtRaise: "exclaim_from repr (AtRaise e) = BRaise e"
  by (subst exclaim_from.code) simp

lemmas exclaim_simps = exclaim_AtHello exclaim_AtFor exclaim_AtYell exclaim_AtReturnE exclaim_AtRaise

lemmas run_simps = run_processors_def effective_feed_def read_input_lines_def read_input_line_def
  pipe_simps relay_AtAwait relay_AtYield relay_AtReturn exclaim_simps events_of_def

text \<open>
  The assertion of the source, \<^verbatim>\<open>list(exclaim_async_iterable([])) == ['Hello world!']\<close>.
\<close>

lemma exclaim_on_empty_list:
  "iterate (Suc (Suc (Suc m))) (exclaim_async_iterable repr (Iterable []))
     = ([Some ''Hello world!''], Completed ())"
  by (simp add: exclaim_async_iterable_def syncgenerator_def pipe_simps exclaim_simps)

text \<open>
  Processor functions made by \<^verbatim>\<open>syncgenerator\<close> are called by \<^verbatim>\<open>gather_processors\<close> with
  an asynchronous iterable, so they return their asynchronous generator unchanged.
\<close>

lemma those_aiters_decorated:
  "those_aiters (map (\<lambda>p. p (AsyncIterable s)) (map (\<lambda>b. syncgenerator (pipe b)) bs))
     = Some (map (\<lambda>b. pipe b s) bs)"
  by (induction bs) (simp_all add: syncgenerator_def)

lemma gather_processors_decorated:
  "gather_processors n (map (\<lambda>b. syncgenerator (pipe b)) bs) xs =
     (case run_processors n (map (\<lambda>b. pipe b (read_input_lines Sentinel)) bs) xs of
        (tr, st) \<Rightarrow> (yielded tr, how_ended st))"
  unfolding gather_processors_def Let_def those_aiters_decorated by simp

lemma example_run:
  "run_processors 4 (example_processors 3) example_lines =
     ([Start 0 0 Null, Emit 0 0 ''Hello world!'', Start 0 1 Null,
       Resume 1 0 (Item ''Goodbye!''), Emit 1 0 (''Someone yelled '' @ quoted ''Goodbye!''),
       Stop 1 0, Resume 1 1 (Item ''Goodbye!''), Resume 2 1 (Item ''late''),
       Resume 3 1 Sentinel, Stop 3 1],
      Completed [GNone, GNone])"
  by (simp add: example_processors_def example_lines_def run_simps eval_nat_numeral
      endswith_def after_yell_def quoted_def)


lemma failing_run:
  "run_processors 4 failing_processors [()] =
     ([Start 0 0 Null, Emit 0 0 3, Start 0 1 Null, Emit 0 1 1, Start 0 2 Null, Emit 0 2 5,
       Resume 1 0 (Item ()), Emit 1 0 4, Stop 1 0, Resume 1 1 (Item ()), Emit 1 1 2],
      Aborted (Other ()))"
  by (simp add: failing_processors_def run_simps eval_nat_numeral)

section \<open>A run, processor by processor\<close>

lemma prefix_delivered: "prefix a b \<Longrightarrow> prefix (delivered a) (delivered b)"
  by (auto simp: prefix_def)

lemma prefix_consumed: "prefix a b \<Longrightarrow> prefix (consumed a) (consumed b)"
  by (auto simp: prefix_def)

lemma prefix_tl: "prefix a b \<Longrightarrow> prefix (tl a) (tl b)"
  by (cases a; cases b) auto

lemma solo_delivery_at:
  "solo n i pos lines g = (tr, st) \<Longrightarrow> Start p j v \<in> set tr \<or> Resume p j v \<in> set tr \<Longrightarrow>
     pos \<le> p \<and> p < pos + length lines \<and> v = lines ! (p - pos)"
proof (induction lines arbitrary: pos g tr st)
  case Nil
  then show ?case by simp
next
  case (Cons l ls)
  show ?case
  proof (cases "g = GNone")
    case True
    with Cons.prems show ?thesis by (simp add: solo_GNone)
  next
    case False
    have fe: "Start p j v \<in> set (first_event pos i g l) \<or> Resume p j v \<in> set (first_event pos i g l)
        \<Longrightarrow> p = pos \<and> v = l"
      by (cases g) auto
    from Cons.prems(1) False show ?thesis
    proof (cases rule: solo_Cons_cases)
      case (stops ys)
      with Cons.prems(2) fe show ?thesis by auto
    next
      case (goes_on ys k tr2)
      from Cons.prems(2) goes_on(1) consider
        "Start p j v \<in> set (first_event pos i g l) \<or> Resume p j v \<in> set (first_event pos i g l)"
        | "Start p j v \<in> set tr2 \<or> Resume p j v \<in> set tr2" by auto
      then show ?thesis
      proof cases
        case 1
        with fe show ?thesis by auto
      next
        case 2
        from Cons.IH[OF goes_on(2) 2] have
          a: "Suc pos \<le> p" and b: "p < Suc pos + length ls" and c: "v = ls ! (p - Suc pos)"
          by auto
        from a have "p - pos = Suc (p - Suc pos)" by simp
        with a b c show ?thesis by simp
      qed
    next
      case (ends ys)
      with Cons.prems(2) fe show ?thesis by auto
    qed
  qed
qed

text \<open>What a run shows of processor \<open>i\<close> is what that processor does on its own.\<close>

lemma run_projection:
  assumes "i < length ps"
  obtains trS stS where
    "solo n i 0 (effective_feed xs) (Fresh (ps ! i)) = (trS, stS)"
    "prefix (events_of i (fst (run_processors n ps xs))) trS"
    "\<And>gens. snd (run_processors n ps xs) = Completed gens \<Longrightarrow>
        events_of i (fst (run_processors n ps xs)) = trS \<and> stS = Completed (gens ! i)
        \<and> length gens = length ps"
proof -
  obtain tr st where r: "for_lines n 0 (effective_feed xs) (map Fresh ps) = (tr, st)"
    by (cases "for_lines n 0 (effective_feed xs) (map Fresh ps)")
  obtain trS stS where s: "solo n i 0 (effective_feed xs) (Fresh (ps ! i)) = (trS, stS)"
    by (cases "solo n i 0 (effective_feed xs) (Fresh (ps ! i))")
  from assms have len: "i < length (map Fresh ps)" by simp
  from for_lines_project[OF r len] assms s
  have "prefix (events_of i tr) trS" 
    and "\<forall>gens'. st = Completed gens' \<longrightarrow> length gens' = length ps \<and>
           (trS, stS) = (events_of i tr, Completed (gens' ! i))" by auto
  with r s show thesis by (intro that[of trS stS]) (auto simp: run_processors_def)
qed

lemma run_no_events:
  assumes "\<not> i < length ps"
  shows "events_of i (fst (run_processors n ps xs)) = []"
proof -
  obtain tr st where r: "for_lines n 0 (effective_feed xs) (map Fresh ps) = (tr, st)"
    by (cases "for_lines n 0 (effective_feed xs) (map Fresh ps)")
  from for_lines_procs[OF r] assms have "\<forall>e\<in>set tr. proc_of e \<noteq> i" by auto
  then show ?thesis using r by (simp add: run_processors_def events_of_def filter_empty_conv)
qed

lemma in_events_of: "e \<in> set tr \<Longrightarrow> e \<in> set (events_of (proc_of e) tr)"
  by (simp add: events_of_def)

lemma run_event_in_solo:
  assumes "e \<in> set (fst (run_processors n ps xs))"
  shows "proc_of e < length ps \<and>
         e \<in> set (fst (solo n (proc_of e) 0 (effective_feed xs) (Fresh (ps ! proc_of e))))"
proof -
  have i: "proc_of e < length ps"
  proof (rule ccontr)
    assume "\<not> proc_of e < length ps"
    from run_no_events[OF this] in_events_of[OF assms] show False by simp
  qed
  from i obtain trS stS where
    s: "solo n (proc_of e) 0 (effective_feed xs) (Fresh (ps ! proc_of e)) = (trS, stS)"
      "prefix (events_of (proc_of e) (fst (run_processors n ps xs))) trS"
    by (rule run_projection)
  from s(2) in_events_of[OF assms] have "e \<in> set trS" by (auto simp: prefix_def)
  with i s(1) show ?thesis by simp
qed

lemma consumed_mem: "Resume p j v \<in> set tr \<Longrightarrow> v \<in> set (consumed tr)"
  by (induction tr rule: consumed.induct) auto



lemma feed_unfold: "effective_feed xs = Null # map Item xs @ [Sentinel]"
  by (simp add: effective_feed_def)

lemma delivery_carries_feed_line:
  assumes "Start p j v \<in> set (fst (run_processors n ps xs)) \<or>
           Resume p j v \<in> set (fst (run_processors n ps xs))"
  shows "p < length xs + 2 \<and> v = (Null # map Item xs @ [Sentinel]) ! p"
proof -
  from assms obtain e where e: "e \<in> set (fst (run_processors n ps xs))"
    "e = Start p j v \<or> e = Resume p j v" by blast
  then have pe: "proc_of e = j" by auto
  obtain trS stS where s: "solo n j 0 (effective_feed xs) (Fresh (ps ! j)) = (trS, stS)"
    by (cases "solo n j 0 (effective_feed xs) (Fresh (ps ! j))")
  from run_event_in_solo[OF e(1)] pe s have "e \<in> set trS" by simp
  with e(2) have "Start p j v \<in> set trS \<or> Resume p j v \<in> set trS" by auto
  from solo_delivery_at[OF s this] show ?thesis by (simp add: feed_unfold)
qed

lemma delivered_prefix_of_feed:
  "prefix (delivered (events_of i (fst (run_processors n ps xs))))
      (Null # map Item xs @ [Sentinel])"
proof (cases "i < length ps")
  case True
  then obtain trS stS where
    s: "solo n i 0 (effective_feed xs) (Fresh (ps ! i)) = (trS, stS)"
      "prefix (events_of i (fst (run_processors n ps xs))) trS"
    by (rule run_projection)
  from prefix_delivered[OF s(2)] solo_delivered_prefix[OF s(1)] feed_unfold[of xs]
  show ?thesis by (metis prefix_order.trans)
next
  case False
  from run_no_events[OF this] show ?thesis by simp
qed

lemma delivered_whole_feed:
  assumes "snd (run_processors n ps xs) = Completed gens" and "i < length ps"
    and "\<forall>p. Stop p i \<in> set (fst (run_processors n ps xs)) \<longrightarrow> p = Suc (length xs)"
  shows "delivered (events_of i (fst (run_processors n ps xs))) = Null # map Item xs @ [Sentinel]"
proof -
  let ?tr = "fst (run_processors n ps xs)"
  from assms(1,2) obtain trS stS where
    s: "solo n i 0 (effective_feed xs) (Fresh (ps ! i)) = (trS, stS)"
    and eq: "events_of i ?tr = trS" "stS = Completed (gens ! i)"
    using run_projection[of i ps n xs] by metis
  have sub: "set trS \<subseteq> set ?tr" using eq(1) by (auto simp: events_of_def)
  show ?thesis
  proof (cases "\<exists>p. Stop p i \<in> set trS")
    case True
    then obtain p where p: "Stop p i \<in> set trS" by blast
    with sub assms(3) have "p = Suc (length xs)" by blast
    with solo_Stop[OF s p] eq(1) show ?thesis by (simp add: feed_unfold)
  next
    case False
    with solo_no_Stop[of n i 0 "effective_feed xs" "Fresh (ps ! i)" trS "gens ! i"] s eq
    show ?thesis by (simp add: feed_unfold)
  qed
qed

lemma consumed_prefix_of_input:
  "prefix (consumed (events_of i (fst (run_processors n ps xs)))) (map Item xs @ [Sentinel])"
proof (cases "i < length ps")
  case True
  then obtain trS stS where
    s: "solo n i 0 (effective_feed xs) (Fresh (ps ! i)) = (trS, stS)"
      "prefix (events_of i (fst (run_processors n ps xs))) trS"
    by (rule run_projection)
  from solo_delivered_prefix[OF s(1)] feed_unfold[of xs]
  have "prefix (tl (delivered trS)) (map Item xs @ [Sentinel])"
    using prefix_tl by fastforce
  with solo_Fresh_consumed(1)[OF s(1)] have "prefix (consumed trS) (map Item xs @ [Sentinel])"
    by simp
  with prefix_consumed[OF s(2)] show ?thesis by (metis prefix_order.trans)
next
  case False
  from run_no_events[OF this] show ?thesis by simp
qed

lemma consumed_not_Null: "Null \<notin> set (consumed (events_of i (fst (run_processors n ps xs))))"
proof -
  from consumed_prefix_of_input[of i n ps xs]
  have "set (consumed (events_of i (fst (run_processors n ps xs))))
      \<subseteq> set (map Item xs @ [Sentinel])"
    by (rule set_mono_prefix)
  then show ?thesis by auto
qed

lemma start_is_first:
  assumes "Start p j v \<in> set (fst (run_processors n ps xs))"
  shows "p = 0 \<and> v = Null"
proof -
  obtain trS stS where s: "solo n j 0 (effective_feed xs) (Fresh (ps ! j)) = (trS, stS)"
    by (cases "solo n j 0 (effective_feed xs) (Fresh (ps ! j))")
  from run_event_in_solo[OF assms] s have "Start p j v \<in> set trS" by simp
  with solo_Fresh_consumed(2)[OF s] show ?thesis by (simp add: feed_unfold)
qed

lemma resume_is_later:
  assumes "Resume p j v \<in> set (fst (run_processors n ps xs))"
  shows "0 < p \<and> v \<noteq> Null"
proof -
  obtain trS stS where s: "solo n j 0 (effective_feed xs) (Fresh (ps ! j)) = (trS, stS)"
    by (cases "solo n j 0 (effective_feed xs) (Fresh (ps ! j))")
  from run_event_in_solo[OF assms] s have "Resume p j v \<in> set trS" by simp
  with solo_Fresh_consumed(3)[OF s] have "0 < p" by blast
  moreover from in_events_of[OF assms]
  have "Resume p j v \<in> set (events_of j (fst (run_processors n ps xs)))" by simp
  from consumed_mem[OF this] consumed_not_Null[of j n ps xs] have "v \<noteq> Null" by auto
  ultimately show ?thesis by simp
qed

lemma consumed_whole_input:
  assumes "snd (run_processors n ps xs) = Completed gens" and "i < length ps"
    and "\<forall>p. Stop p i \<in> set (fst (run_processors n ps xs)) \<longrightarrow> p = Suc (length xs)"
  shows "consumed (events_of i (fst (run_processors n ps xs))) = map Item xs @ [Sentinel]"
proof -
  from assms(1,2) obtain trS stS where
    s: "solo n i 0 (effective_feed xs) (Fresh (ps ! i)) = (trS, stS)"
    and eq: "events_of i (fst (run_processors n ps xs)) = trS"
    using run_projection[of i ps n xs] by metis
  from delivered_whole_feed[OF assms] solo_Fresh_consumed(1)[OF s] eq show ?thesis by simp
qed

section \<open>The effective feed\<close>

text \<open>
  Claim C3. The feed of a run on the input \<open>xs\<close> is the leading \<^verbatim>\<open>None\<close>, the elements
  of \<open>xs\<close> in order, and the sentinel. Every line that is sent to a processor is the
  element of that feed at the position of the send; the lines sent to one processor are
  an initial part of the feed, in order; and they are the whole feed when the run
  completes and the processor did not return before the sentinel.
\<close>

theorem effective_feed_is_delivered:
  "effective_feed xs = Null # map Item xs @ [Sentinel] \<and>
   (\<forall>p j v. Start p j v \<in> set (fst (run_processors n ps xs)) \<or>
             Resume p j v \<in> set (fst (run_processors n ps xs)) \<longrightarrow>
      p < length xs + 2 \<and> v = (Null # map Item xs @ [Sentinel]) ! p) \<and>
   prefix (delivered (events_of i (fst (run_processors n ps xs))))
      (Null # map Item xs @ [Sentinel]) \<and>
   (\<forall>gens. snd (run_processors n ps xs) = Completed gens \<and> i < length ps \<and>
       (\<forall>p. Stop p i \<in> set (fst (run_processors n ps xs)) \<longrightarrow> p = Suc (length xs)) \<longrightarrow>
      delivered (events_of i (fst (run_processors n ps xs))) = Null # map Item xs @ [Sentinel])"
proof (intro conjI allI impI)
  show "effective_feed xs = Null # map Item xs @ [Sentinel]"
    by (rule feed_unfold)
  show "prefix (delivered (events_of i (fst (run_processors n ps xs))))
      (Null # map Item xs @ [Sentinel])"
    by (rule delivered_prefix_of_feed)
next
  fix p j v
  assume "Start p j v \<in> set (fst (run_processors n ps xs)) \<or>
          Resume p j v \<in> set (fst (run_processors n ps xs))"
  from delivery_carries_feed_line[OF this]
  show "p < length xs + 2" and "v = (Null # map Item xs @ [Sentinel]) ! p" by simp_all
next
  fix gens
  assume "snd (run_processors n ps xs) = Completed gens \<and> i < length ps \<and>
       (\<forall>p. Stop p i \<in> set (fst (run_processors n ps xs)) \<longrightarrow> p = Suc (length xs))"
  then show "delivered (events_of i (fst (run_processors n ps xs)))
      = Null # map Item xs @ [Sentinel]"
    using delivered_whole_feed by blast
qed

theorem effective_feed_is_delivered_witness:
  "snd (run_processors 4 (example_processors 3) example_lines) = Completed [GNone, GNone] \<and>
   (1::nat) < length (example_processors 3) \<and>
   Stop 3 1 \<in> set (fst (run_processors 4 (example_processors 3) example_lines)) \<and>
   effective_feed example_lines = [Null, Item ''Goodbye!'', Item ''late'', Sentinel] \<and>
   delivered (events_of 1 (fst (run_processors 4 (example_processors 3) example_lines)))
     = [Null, Item ''Goodbye!'', Item ''late'', Sentinel]"
  using effective_feed_is_delivered [of example_lines 4 "example_processors 3" 1]
  by (simp add: example_run events_of_def) (simp add: example_processors_def example_lines_def)

section \<open>The leading \<^verbatim>\<open>None\<close>\<close>

text \<open>
  Claim C9 fails as it is stated: a processor that returns early has consumed only the
  first elements of the input, not all of them. Here the first processor returns at
  \<^verbatim>\<open>'Goodbye!'\<close> and never consumes \<^verbatim>\<open>'late'\<close>.
\<close>

theorem early_return_consumes_less:
  "consumed (events_of 0 (fst (run_processors 4 (example_processors 3) example_lines)))
     = [Item ''Goodbye!''] \<and>
   consumed (events_of 0 (fst (run_processors 4 (example_processors 3) example_lines)))
     \<noteq> map Item example_lines \<and>
   consumed (events_of 0 (fst (run_processors 4 (example_processors 3) example_lines)))
     \<noteq> map Item example_lines @ [Sentinel]"
  by (simp only: example_run fst_conv) (simp add: events_of_def example_lines_def)

text \<open>
  Claim C9, amended. The leading \<^verbatim>\<open>None\<close> only starts the processors: every start is at
  position 0 with \<^verbatim>\<open>None\<close>, every await is resumed at a later position with a value that
  is not the leading \<^verbatim>\<open>None\<close>, and the values that the awaits of one processor receive
  are an initial part of the elements of the input, in order, followed by the sentinel:
  all of them when the run completes and the processor did not return before the
  sentinel.
\<close>

theorem null_token_only_starts:
  "prefix (consumed (events_of i (fst (run_processors n ps xs)))) (map Item xs @ [Sentinel]) \<and>
   Null \<notin> set (consumed (events_of i (fst (run_processors n ps xs)))) \<and>
   (\<forall>p j v. Start p j v \<in> set (fst (run_processors n ps xs)) \<longrightarrow> p = 0 \<and> v = Null) \<and>
   (\<forall>p j v. Resume p j v \<in> set (fst (run_processors n ps xs)) \<longrightarrow> 0 < p \<and> v \<noteq> Null) \<and>
   (\<forall>gens. snd (run_processors n ps xs) = Completed gens \<and> i < length ps \<and>
       (\<forall>p. Stop p i \<in> set (fst (run_processors n ps xs)) \<longrightarrow> p = Suc (length xs)) \<longrightarrow>
      consumed (events_of i (fst (run_processors n ps xs))) = map Item xs @ [Sentinel])"
proof (intro conjI allI impI)
  show "prefix (consumed (events_of i (fst (run_processors n ps xs))))
      (map Item xs @ [Sentinel])"
    by (rule consumed_prefix_of_input)
  show "Null \<notin> set (consumed (events_of i (fst (run_processors n ps xs))))"
    by (rule consumed_not_Null)
next
  fix p j v
  assume "Start p j v \<in> set (fst (run_processors n ps xs))"
  from start_is_first[OF this] show "p = 0" and "v = Null" by simp_all
next
  fix p j v
  assume "Resume p j v \<in> set (fst (run_processors n ps xs))"
  from resume_is_later[OF this] show "0 < p" and "v \<noteq> Null" by simp_all
next
  fix gens
  assume "snd (run_processors n ps xs) = Completed gens \<and> i < length ps \<and>
       (\<forall>p. Stop p i \<in> set (fst (run_processors n ps xs)) \<longrightarrow> p = Suc (length xs))"
  then show "consumed (events_of i (fst (run_processors n ps xs))) = map Item xs @ [Sentinel]"
    using consumed_whole_input by blast
qed

theorem null_token_only_starts_witness:
  "snd (run_processors 4 (example_processors 3) example_lines) = Completed [GNone, GNone] \<and>
   (1::nat) < length (example_processors 3) \<and>
   Stop 3 1 \<in> set (fst (run_processors 4 (example_processors 3) example_lines)) \<and>
   Start 0 1 Null \<in> set (fst (run_processors 4 (example_processors 3) example_lines)) \<and>
   Resume 1 1 (Item ''Goodbye!'') \<in> set (fst (run_processors 4 (example_processors 3) example_lines)) \<and>
   consumed (events_of 1 (fst (run_processors 4 (example_processors 3) example_lines)))
     = [Item ''Goodbye!'', Item ''late'', Sentinel]"
  using null_token_only_starts [of 1 4 "example_processors 3" example_lines]
  by (simp add: example_run events_of_def) (simp add: example_processors_def example_lines_def)

section \<open>A processor that returns early\<close>



section \<open>The delivery of the sentinel\<close>

lemma send_loop_pipe_Done:
  "send_loop n pos i (pipe b Done) = (tr, Broke g) \<Longrightarrow> g = GNone"
proof (induction n arbitrary: b tr)
  case 0
  then show ?case by simp
next
  case (Suc n)
  show ?case
  proof (cases b)
    case (BNext k)
    with Suc.prems have "send_loop n pos i (pipe (k End) Done) = (tr, Broke g)"
      by (simp add: pipe_simps)
    then show ?thesis by (rule Suc.IH)
  next
    case (BYield y b')
    with Suc.prems have "\<exists>tr'. send_loop n pos i (pipe b' Done) = (tr', Broke g)"
      by (auto simp: pipe_simps split: prod.splits option.splits)
    with Suc.IH show ?thesis by blast
  next
    case BReturn
    with Suc.prems show ?thesis by (simp add: pipe_simps)
  next
    case (BRaise e)
    with Suc.prems show ?thesis by (simp add: pipe_simps)
  qed
qed

lemma send_loop_pipe_relay:
  "send_loop n pos i (pipe b (relay Sentinel AtAwait)) = (tr, Broke g) \<Longrightarrow> relay_fed g"
proof (induction n arbitrary: b tr)
  case 0
  then show ?case by simp
next
  case (Suc n)
  show ?case
  proof (cases b)
    case (BNext k)
    have "pipe (BNext k) (relay Sentinel AtAwait) =
        Await (\<lambda>v. pipe (BNext k) (relay Sentinel (if v = Sentinel then AtReturn else AtYield v)))"
      by (subst relay_AtAwait) (simp add: pipe_simps)
    with Suc.prems BNext show ?thesis by (auto simp: relay_fed_def)
  next
    case (BYield y b')
    obtain tr' r' where sl: "send_loop n pos i (pipe b' (relay Sentinel AtAwait)) = (tr', r')"
      by (cases "send_loop n pos i (pipe b' (relay Sentinel AtAwait))")
    with Suc.prems BYield have "r' = Broke g" by (simp add: pipe_simps split: option.splits)
    with sl Suc.IH show ?thesis by blast
  next
    case BReturn
    with Suc.prems show ?thesis by (simp add: pipe_simps relay_fed_def)
  next
    case (BRaise e)
    with Suc.prems show ?thesis by (simp add: pipe_simps)
  qed
qed

lemma advance_relay_fed:
  assumes "relay_fed g" and "advance n pos i g line = (tr, Broke g')"
  shows "relay_fed g' \<and> (line = Sentinel \<longrightarrow> g' = GNone)"
proof -
  from assms(1) consider "g = GNone"
    | b where "g = Fresh (pipe b (relay Sentinel AtAwait))"
    | k where "g = Suspended (\<lambda>v. pipe (BNext k)
                (relay Sentinel (if v = Sentinel then AtReturn else AtYield v)))"
    by (auto simp: relay_fed_def)
  then show ?thesis
  proof cases
    case 1
    with assms(2) show ?thesis by (simp add: relay_fed_def)
  next
    case (2 b)
    show ?thesis
    proof (cases "line = Null")
      case True
      obtain tr' r' where sl: "send_loop n pos i (pipe b (relay Sentinel AtAwait)) = (tr', r')"
        by (cases "send_loop n pos i (pipe b (relay Sentinel AtAwait))")
      with assms(2) 2 True have "r' = Broke g'" by simp
      with sl send_loop_pipe_relay True show ?thesis by blast
    next
      case False
      with assms(2) 2 show ?thesis by simp
    qed
  next
    case (3 k)
    show ?thesis
    proof (cases n)
      case 0
      with assms(2) 3 show ?thesis by simp
    next
      case (Suc m)
      show ?thesis
      proof (cases "line = Sentinel")
        case True
        with assms(2) 3 Suc have "\<exists>tr'. send_loop m pos i (pipe (k End) Done) = (tr', Broke g')"
          by (auto simp: pipe_simps relay_AtReturn split: prod.splits)
        with send_loop_pipe_Done have "g' = GNone" by blast
        then show ?thesis by (simp add: relay_fed_def)
      next
        case False
        obtain tr' r' where
          sl: "send_loop m pos i (pipe (k (Got line)) (relay Sentinel AtAwait)) = (tr', r')"
          by (cases "send_loop m pos i (pipe (k (Got line)) (relay Sentinel AtAwait))")
        with assms(2) 3 False Suc have "r' = Broke g'"
          by (simp add: pipe_simps relay_AtYield)
        with sl send_loop_pipe_relay False show ?thesis by blast
      qed
    qed
  qed
qed

lemma solo_relay_fed:
  "solo n i pos lines g = (tr, Completed g') \<Longrightarrow> relay_fed g \<Longrightarrow>
     relay_fed g' \<and> (lines \<noteq> [] \<and> last lines = Sentinel \<longrightarrow> g' = GNone)"
proof (induction lines arbitrary: pos g tr)
  case Nil
  then show ?case by simp
next
  case (Cons l ls)
  obtain tr1 r1 where adv: "advance n pos i g l = (tr1, r1)" by (cases "advance n pos i g l")
  show ?case
  proof (cases r1)
    case (Broke g1)
    obtain tr2 st2 where s2: "solo n i (Suc pos) ls g1 = (tr2, st2)"
      by (cases "solo n i (Suc pos) ls g1")
    with Cons.prems(1) adv Broke have st2: "st2 = Completed g'" by simp
    from advance_relay_fed[OF Cons.prems(2) adv[unfolded Broke]]
    have fed1: "relay_fed g1" and sent: "l = Sentinel \<longrightarrow> g1 = GNone" by simp_all
    from Cons.IH[OF s2[unfolded st2] fed1]
    have ih: "relay_fed g'" "ls \<noteq> [] \<and> last ls = Sentinel \<longrightarrow> g' = GNone" by simp_all
    show ?thesis
    proof (cases "ls = []")
      case True
      with s2 st2 have "g' = g1" by simp
      with sent ih(1) True show ?thesis by simp
    next
      case False
      with ih show ?thesis by simp
    qed
  next
    case (Raised e)
    with Cons.prems(1) adv show ?thesis by simp
  next
    case Hung
    with Cons.prems(1) adv show ?thesis by simp
  qed
qed

lemma for_lines_pos_bound:
  "for_lines n pos lines gens = (tr, st) \<Longrightarrow> \<forall>e\<in>set tr. pos_of e < pos + length lines"
proof (induction lines arbitrary: pos gens tr st)
  case Nil
  then show ?case by auto
next
  case (Cons line lines)
  obtain tr1 st1 where fp: "for_processors n pos line [0..<length gens] gens = (tr1, st1)"
    by (cases "for_processors n pos line [0..<length gens] gens")
  from for_processors_range(1)[OF fp] have k1: "\<forall>e\<in>set tr1. pos_of e = pos" by blast
  show ?case
  proof (cases st1)
    case (Completed gens1)
    obtain tr2 st2 where rest: "for_lines n (Suc pos) lines gens1 = (tr2, st2)"
      by (cases "for_lines n (Suc pos) lines gens1")
    from Cons.prems(1) fp Completed rest have tr: "tr = tr1 @ tr2" by auto
    from Cons.IH[OF rest] have "\<forall>e\<in>set tr2. pos_of e < Suc pos + length lines" .
    with k1 tr show ?thesis by fastforce
  next
    case (Aborted e)
    with Cons.prems(1) fp k1 show ?thesis by auto
  next
    case OutOfFuel
    with Cons.prems(1) fp k1 show ?thesis by auto
  qed
qed

lemma relay_reader_terminated:
  assumes c: "snd (run_processors n ps xs) = Completed gens" and i: "i < length ps"
    and b: "ps ! i = pipe b (read_input_lines Sentinel)"
  shows "gens ! i = GNone"
    and "Sentinel \<in> set (delivered (events_of i (fst (run_processors n ps xs)))) \<Longrightarrow>
           Stop (Suc (length xs)) i \<in> set (fst (run_processors n ps xs))"
proof -
  let ?tr = "fst (run_processors n ps xs)"
  from c i obtain trS stS where
    s: "solo n i 0 (effective_feed xs) (Fresh (ps ! i)) = (trS, stS)"
    and eq: "events_of i ?tr = trS" "stS = Completed (gens ! i)"
    using run_projection[of i ps n xs] by metis
  have fed: "relay_fed (Fresh (ps ! i))"
    using b by (auto simp: relay_fed_def read_input_lines_def)
  from solo_relay_fed[OF s[unfolded eq(2)] fed]
  show g: "gens ! i = GNone" by (simp add: effective_feed_def)
  assume sent: "Sentinel \<in> set (delivered (events_of i ?tr))"
  have "\<exists>p. Stop p i \<in> set trS"
  proof (rule ccontr)
    assume "\<not> (\<exists>p. Stop p i \<in> set trS)"
    then have "\<forall>p. Stop p i \<notin> set trS" by blast
    from solo_no_Stop[OF s[unfolded eq(2)] _ this] g show False by simp
  qed
  then obtain p where p: "Stop p i \<in> set trS" by blast
  with eq(1) have mem: "Stop p i \<in> set ?tr" by (auto simp: events_of_def)
  obtain tr st where r: "for_lines n 0 (effective_feed xs) (map Fresh ps) = (tr, st)"
    by (cases "for_lines n 0 (effective_feed xs) (map Fresh ps)")
  from r have "?tr = tr" by (simp add: run_processors_def)
  with mem have "Stop p i \<in> set tr" by simp
  with for_lines_pos_bound[OF r] have "pos_of (Stop p i :: ('a, 'b) event) < 0 + length (effective_feed xs)"
    by blast
  then have ub: "p < length xs + 2" by (simp add: effective_feed_def)
  from solo_Stop[OF s p] have d: "delivered trS = take (Suc p) (effective_feed xs)" by simp
  have "\<not> p \<le> length xs"
  proof
    assume "p \<le> length xs"
    then have "take (Suc p) (effective_feed xs) = Null # take p (map Item xs)"
      by (simp add: effective_feed_def)
    with d have "set (delivered trS) \<subseteq> insert Null (Item ` set xs)"
      using set_take_subset[of p "map Item xs"] by auto
    with sent eq(1) show False by auto
  qed
  with ub have "p = Suc (length xs)" by simp
  with mem show "Stop (Suc (length xs)) i \<in> set ?tr" by simp
qed

lemma prefix_snoc_count:
  assumes "prefix d (ys @ [s])" and "s \<notin> set ys"
  shows "count_list d s \<le> 1 \<and> (s \<in> set d \<longrightarrow> last d = s)"
proof -
  from assms(1) have "prefix d ys \<or> d = ys @ [s]" by auto
  then show ?thesis
  proof
    assume "prefix d ys"
    with assms(2) have "s \<notin> set d" using set_mono_prefix by blast
    then show ?thesis by (simp add: count_list_0_iff)
  next
    assume "d = ys @ [s]"
    with assms(2) show ?thesis by (simp add: count_list_0_iff)
  qed
qed

lemma mixed_run:
  "run_processors 2 mixed_processors [] =
     ([Start 0 0 Null, Emit 0 0 ''Hello world!'', Start 0 1 Null,
       Resume 1 0 Sentinel, Stop 1 0, Resume 1 1 Sentinel],
      Completed [GNone, Suspended (\<lambda>line'. Done)])"
  by (simp add: mixed_processors_def lingering_def run_simps numeral_2_eq_2)

text \<open>
  Claim C4 fails as it is stated, in two ways. A processor that awaits the suspension
  primitive itself once more after it was sent the sentinel is left suspended: the run
  completes, the sentinel was its last line, and its entry is not \<^verbatim>\<open>None\<close>. And when a
  processor raises while the sentinel is processed, the run is aborted there: that
  processor was sent the sentinel and has not been marked as terminated, and a later
  processor, which was live at the end of the input, is never sent the sentinel.
\<close>

theorem lingering_stays_suspended:
  "delivered (events_of 0 (fst (run_processors 2
       [lingering :: (unit token, unit option, unit) agen] []))) = [Null, Sentinel] \<and>
   terminated_at_end (snd (run_processors 2
       [lingering :: (unit token, unit option, unit) agen] [])) = Some [False] \<and>
   run_processors 2 raising_processors [] =
     ([Start 0 0 Null, Start 0 1 Null, Emit 0 1 ''Hello world!'', Resume 1 0 Sentinel],
      Aborted (Other ())) \<and>
   delivered (events_of 1 (fst (run_processors 2 raising_processors []))) = [Null]"
  by (simp add: run_processors_def effective_feed_def lingering_def read_input_line_def
      numeral_2_eq_2 events_of_def raising_processors_def raise_after_first_def
      read_input_lines_def pipe_simps relay_AtAwait relay_AtYield relay_AtReturn exclaim_simps)

text \<open>
  Claim C4, amended. In every run, no processor is sent the sentinel more than once, and
  a processor that is sent it is sent nothing after it. In a run that completes, a
  processor that did not return before the sentinel is sent it exactly once; and a
  processor that reads its input through \<^verbatim>\<open>read_input_lines(sentinel)\<close> only, whatever
  the other processors are, has its entry of \<^verbatim>\<open>gens\<close> set to \<^verbatim>\<open>None\<close>, in the very turn
  in which it was sent the sentinel if it was sent it.
\<close>

theorem sentinel_delivered_once_and_last:
  "count_list (delivered (events_of i (fst (run_processors n ps xs)))) Sentinel \<le> 1 \<and>
   (Sentinel \<in> set (delivered (events_of i (fst (run_processors n ps xs)))) \<longrightarrow>
      last (delivered (events_of i (fst (run_processors n ps xs)))) = Sentinel) \<and>
   (\<forall>gens. snd (run_processors n ps xs) = Completed gens \<and> i < length ps \<and>
       (\<forall>p. Stop p i \<in> set (fst (run_processors n ps xs)) \<longrightarrow> p = Suc (length xs)) \<longrightarrow>
      count_list (delivered (events_of i (fst (run_processors n ps xs)))) Sentinel = 1) \<and>
   (\<forall>gens b. snd (run_processors n ps xs) = Completed gens \<and> i < length ps \<and>
       ps ! i = pipe b (read_input_lines Sentinel) \<longrightarrow>
      gens ! i = GNone \<and>
      (Sentinel \<in> set (delivered (events_of i (fst (run_processors n ps xs)))) \<longrightarrow>
         Stop (Suc (length xs)) i \<in> set (fst (run_processors n ps xs))))"
proof -
  let ?tr = "fst (run_processors n ps xs)"
  let ?d = "delivered (events_of i ?tr)"
  from delivered_prefix_of_feed[of i n ps xs]
  have pre: "prefix ?d ((Null # map Item xs) @ [Sentinel])" by simp
  from delivered_whole_feed[of n ps xs _ i]
  have full: "\<forall>gens. snd (run_processors n ps xs) = Completed gens \<and> i < length ps \<and>
       (\<forall>p. Stop p i \<in> set ?tr \<longrightarrow> p = Suc (length xs)) \<longrightarrow>
       ?d = Null # map Item xs @ [Sentinel]" by blast
  have "Sentinel \<notin> set (Null # map Item xs)" by auto
  from prefix_snoc_count[OF pre this]
  have A: "count_list ?d Sentinel \<le> 1" and B: "Sentinel \<in> set ?d \<longrightarrow> last ?d = Sentinel"
    by simp_all
  have C: "\<forall>gens. snd (run_processors n ps xs) = Completed gens \<and> i < length ps \<and>
       (\<forall>p. Stop p i \<in> set ?tr \<longrightarrow> p = Suc (length xs)) \<longrightarrow> count_list ?d Sentinel = 1"
  proof (intro allI impI)
    fix gens assume "snd (run_processors n ps xs) = Completed gens \<and> i < length ps \<and>
       (\<forall>p. Stop p i \<in> set ?tr \<longrightarrow> p = Suc (length xs))"
    with full have "?d = Null # map Item xs @ [Sentinel]" by blast
    moreover have "count_list (map Item xs) Sentinel = 0" by (simp add: count_list_0_iff) auto
    ultimately show "count_list ?d Sentinel = 1" by simp
  qed
  have D: "\<forall>gens b. snd (run_processors n ps xs) = Completed gens \<and> i < length ps \<and>
       ps ! i = pipe b (read_input_lines Sentinel) \<longrightarrow>
      gens ! i = GNone \<and> (Sentinel \<in> set ?d \<longrightarrow> Stop (Suc (length xs)) i \<in> set ?tr)"
    using relay_reader_terminated by blast
  from A B C D show ?thesis by blast
qed

theorem sentinel_delivered_once_and_last_witness:
  "snd (run_processors 2 mixed_processors [])
     = Completed [GNone, Suspended (\<lambda>line'. Done)] \<and>
   (0::nat) < length mixed_processors \<and>
   mixed_processors ! 0 = pipe (exclaim_from quoted AtHello) (read_input_lines Sentinel) \<and>
   delivered (events_of 0 (fst (run_processors 2 mixed_processors []))) = [Null, Sentinel] \<and>
   count_list (delivered (events_of 0 (fst (run_processors 2 mixed_processors [])))) Sentinel
     = 1 \<and>
   Stop (Suc (length ([] :: string list))) 0 \<in> set (fst (run_processors 2 mixed_processors [])) \<and>
   terminated_at_end (snd (run_processors 2 mixed_processors [])) = Some [True, False]"
  using sentinel_delivered_once_and_last [of 0 2 mixed_processors "[]"]
  by (simp only: mixed_run fst_conv snd_conv) (simp add: events_of_def mixed_processors_def)

section \<open>A processor that raises\<close>

lemma for_processors_append:
  "for_processors n pos line (is1 @ is2) gens =
     (case for_processors n pos line is1 gens of
        (tr, Completed gens') \<Rightarrow>
          (case for_processors n pos line is2 gens' of (tr', st) \<Rightarrow> (tr @ tr', st))
      | (tr, Aborted e) \<Rightarrow> (tr, Aborted e)
      | (tr, OutOfFuel) \<Rightarrow> (tr, OutOfFuel))"
proof (induction is1 arbitrary: gens)
  case Nil
  then show ?case by (simp split: prod.splits)
next
  case (Cons i is1)
  obtain tr1 r1 where adv: "advance n pos i (gens ! i) line = (tr1, r1)"
    by (cases "advance n pos i (gens ! i) line")
  show ?case
  proof (cases r1)
    case (Broke g)
    obtain tr2 st2 where a: "for_processors n pos line is1 (gens[i := g]) = (tr2, st2)"
      by (cases "for_processors n pos line is1 (gens[i := g])")
    show ?thesis
    proof (cases st2)
      case (Completed gens')
      obtain tr3 st3 where b: "for_processors n pos line is2 gens' = (tr3, st3)"
        by (cases "for_processors n pos line is2 gens'")
      from adv Broke a Completed b Cons.IH[of "gens[i := g]"] show ?thesis by simp
    next
      case (Aborted e)
      from adv Broke a Aborted Cons.IH[of "gens[i := g]"] show ?thesis by simp
    next
      case OutOfFuel
      from adv Broke a OutOfFuel Cons.IH[of "gens[i := g]"] show ?thesis by simp
    qed
  next
    case (Raised e)
    with adv show ?thesis by simp
  next
    case Hung
    with adv show ?thesis by simp
  qed
qed

lemma for_lines_append:
  "for_lines n pos (ls1 @ ls2) gens =
     (case for_lines n pos ls1 gens of
        (tr, Completed gens') \<Rightarrow>
          (case for_lines n (pos + length ls1) ls2 gens' of (tr', st) \<Rightarrow> (tr @ tr', st))
      | (tr, Aborted e) \<Rightarrow> (tr, Aborted e)
      | (tr, OutOfFuel) \<Rightarrow> (tr, OutOfFuel))"
proof (induction ls1 arbitrary: pos gens)
  case Nil
  then show ?case by (simp split: prod.splits)
next
  case (Cons l ls1)
  obtain tr1 st1 where fp: "for_processors n pos l [0..<length gens] gens = (tr1, st1)"
    by (cases "for_processors n pos l [0..<length gens] gens")
  show ?case
  proof (cases st1)
    case (Completed gens1)
    obtain tr2 st2 where a: "for_lines n (Suc pos) ls1 gens1 = (tr2, st2)"
      by (cases "for_lines n (Suc pos) ls1 gens1")
    show ?thesis
    proof (cases st2)
      case (Completed gens')
      obtain tr3 st3 where b: "for_lines n (Suc pos + length ls1) ls2 gens' = (tr3, st3)"
        by (cases "for_lines n (Suc pos + length ls1) ls2 gens'")
      from fp \<open>st1 = Completed gens1\<close> a Completed b Cons.IH[of "Suc pos" gens1]
      show ?thesis by simp
    next
      case (Aborted e)
      from fp \<open>st1 = Completed gens1\<close> a Aborted Cons.IH[of "Suc pos" gens1]
      show ?thesis by simp
    next
      case OutOfFuel
      from fp \<open>st1 = Completed gens1\<close> a OutOfFuel Cons.IH[of "Suc pos" gens1]
      show ?thesis by simp
    qed
  next
    case (Aborted e)
    with fp show ?thesis by simp
  next
    case OutOfFuel
    with fp show ?thesis by simp
  qed
qed

lemma for_lines_length:
  "for_lines n pos lines gens = (tr, Completed gens') \<Longrightarrow> length gens' = length gens"
proof (induction lines arbitrary: pos gens tr)
  case Nil
  then show ?case by simp
next
  case (Cons line lines)
  obtain tr1 st1 where fp: "for_processors n pos line [0..<length gens] gens = (tr1, st1)"
    by (cases "for_processors n pos line [0..<length gens] gens")
  show ?case
  proof (cases st1)
    case (Completed gens1)
    obtain tr2 st2 where rest: "for_lines n (Suc pos) lines gens1 = (tr2, st2)"
      by (cases "for_lines n (Suc pos) lines gens1")
    with Cons.prems fp Completed have "st2 = Completed gens'" by simp
    with Cons.IH rest for_processors_range(3)[OF fp Completed] show ?thesis by metis
  next
    case (Aborted e)
    with Cons.prems fp show ?thesis by simp
  next
    case OutOfFuel
    with Cons.prems fp show ?thesis by simp
  qed
qed

text \<open>
  Claim C8. Let the lines \<open>ls1\<close> of the feed and, for the next line, the processors
  before \<open>i\<close> be processed without an exception, and let processor \<open>i\<close> then raise \<open>e\<close>.
  Then the run ends with \<open>e\<close>, and its events are the events up to that point: what came
  before stays, and nothing comes after, whatever the later processors and the later
  lines are.
\<close>

theorem exception_aborts_run:
  assumes feed: "effective_feed xs = ls1 @ line # ls2"
    and before: "for_lines n 0 ls1 (map Fresh ps) = (tr1, Completed gens1)"
    and i: "i < length ps"
    and earlier: "for_processors n (length ls1) line [0..<i] gens1 = (tr2, Completed gens2)"
    and raises: "advance n (length ls1) i (gens2 ! i) line = (tr3, Raised e)"
  shows "run_processors n ps xs = (tr1 @ tr2 @ tr3, Aborted e) \<and>
         yielded (fst (run_processors n ps xs)) = yielded tr1 @ yielded tr2 @ yielded tr3"
proof -
  from for_lines_length[OF before] i have len: "i < length gens1" by simp
  then have idx: "[0..<length gens1] = [0..<i] @ i # [Suc i..<length gens1]"
    by (metis le0 less_imp_le_nat upt_add_eq_append upt_conv_Cons le_add_diff_inverse)
  have "for_processors n (length ls1) line (i # [Suc i..<length gens1]) gens2 = (tr3, Aborted e)"
    using raises by simp
  with earlier have "for_processors n (length ls1) line [0..<length gens1] gens1
      = (tr2 @ tr3, Aborted e)"
    by (simp add: idx for_processors_append)
  then have "for_lines n (length ls1) (line # ls2) gens1 = (tr2 @ tr3, Aborted e)" by simp
  with before have "for_lines n 0 (ls1 @ line # ls2) (map Fresh ps) = (tr1 @ tr2 @ tr3, Aborted e)"
    by (simp add: for_lines_append)
  with feed have "run_processors n ps xs = (tr1 @ tr2 @ tr3, Aborted e)"
    by (simp add: run_processors_def)
  then show ?thesis by (simp add: yielded_def)
qed

theorem exception_aborts_run_witness:
  "run_processors 4 failing_processors [()] =
     ([Start 0 0 Null, Emit 0 0 3, Start 0 1 Null, Emit 0 1 1, Start 0 2 Null, Emit 0 2 5,
       Resume 1 0 (Item ()), Emit 1 0 4, Stop 1 0, Resume 1 1 (Item ()), Emit 1 1 2],
      Aborted (Other ())) \<and>
   yielded (fst (run_processors 4 failing_processors [()]))
     = [(0, 3), (1, 1), (2, 5), (0, 4), (1, 2)]"
proof -
  have 1: "effective_feed [()] = [Null] @ Item () # [Sentinel]"
    by (simp add: effective_feed_def)
  have 2: "for_lines 4 0 [Null] (map Fresh failing_processors) =
      ([Start 0 0 Null, Emit 0 0 3, Start 0 1 Null, Emit 0 1 1, Start 0 2 Null, Emit 0 2 5],
       Completed [Suspended (\<lambda>line. Yield (Some 4) Done),
                  Suspended (\<lambda>line. Yield (Some 2) (Raise (Other ()))),
                  Suspended (\<lambda>line. Yield (Some 6) Done)])"
    by (simp add: failing_processors_def read_input_line_def eval_nat_numeral)
  have 3: "1 < length failing_processors"
    by (simp add: failing_processors_def)
  have 4: "for_processors 4 (length [Null :: unit token]) (Item ()) [0..<1]
        [Suspended (\<lambda>line. Yield (Some 4) Done),
         Suspended (\<lambda>line. Yield (Some 2) (Raise (Other ()))),
         Suspended (\<lambda>line. Yield (Some 6) Done)] =
      ([Resume 1 0 (Item ()), Emit 1 0 4, Stop 1 0],
       Completed [GNone, Suspended (\<lambda>line. Yield (Some 2) (Raise (Other ()))),
                  Suspended (\<lambda>line. Yield (Some 6) Done :: (unit token, nat option, unit) agen)])"
    by (simp add: eval_nat_numeral)
  have 5: "advance 4 (length [Null :: unit token]) 1
        ([GNone, Suspended (\<lambda>line. Yield (Some 2) (Raise (Other ()))),
          Suspended (\<lambda>line. Yield (Some 6) Done :: (unit token, nat option, unit) agen)] ! 1) (Item ()) =
      ([Resume 1 1 (Item ()), Emit 1 1 2], Raised (Other ()))"
    by (simp add: eval_nat_numeral)
  from exception_aborts_run [OF 1 2 3 4 5] show ?thesis
    by (simp add: yielded_def)
qed

section \<open>The order of the output events\<close>

lemma emitted_mem: "(p, i, y) \<in> set (emitted tr) \<Longrightarrow> Emit p i y \<in> set tr"
  by (induction tr rule: emitted.induct) auto

lemma emitted_tags:
  assumes "x \<in> set (emitted tr)"
  shows "\<exists>e\<in>set tr. pos_of e = fst x \<and> proc_of e = fst (snd x)"
proof -
  obtain p i y where x: "x = (p, i, y)" by (cases x)
  with assms emitted_mem have "Emit p i y \<in> set tr" by fast
  with x show ?thesis by force
qed

lemma sorted_same_key:
  "\<forall>x\<in>set l. fst x = pos \<and> fst (snd x) = i \<Longrightarrow> sorted_wrt key_le l"
  by (induction l) (auto simp: key_le_def)

lemma for_processors_tags:
  "for_processors n pos line is gens = (tr, st) \<Longrightarrow>
     \<forall>e\<in>set tr. pos_of e = pos \<and> proc_of e \<in> set is"
proof (induction "is" arbitrary: gens tr st)
  case Nil
  then show ?case by simp
next
  case (Cons i "is")
  obtain tr1 r1 where adv: "advance n pos i (gens ! i) line = (tr1, r1)"
    by (cases "advance n pos i (gens ! i) line")
  note pp1 = advance_proc_of[OF adv]
  show ?case
  proof (cases r1)
    case (Broke g)
    obtain tr2 st2 where rest: "for_processors n pos line is (gens[i := g]) = (tr2, st2)"
      by (cases "for_processors n pos line is (gens[i := g])")
    from Cons.prems adv Broke rest have "tr = tr1 @ tr2" by simp
    with Cons.IH[OF rest] pp1 show ?thesis by auto
  next
    case (Raised e)
    with Cons.prems adv pp1 show ?thesis by auto
  next
    case Hung
    with Cons.prems adv pp1 show ?thesis by auto
  qed
qed

lemma for_processors_sorted:
  "for_processors n pos line is gens = (tr, st) \<Longrightarrow> sorted is \<Longrightarrow>
     sorted_wrt key_le (emitted tr)"
proof (induction "is" arbitrary: gens tr st)
  case Nil
  then show ?case by simp
next
  case (Cons i "is")
  obtain tr1 r1 where adv: "advance n pos i (gens ! i) line = (tr1, r1)"
    by (cases "advance n pos i (gens ! i) line")
  have k1: "\<forall>x\<in>set (emitted tr1). fst x = pos \<and> fst (snd x) = i"
    using advance_proc_of[OF adv] emitted_tags by fastforce
  then have s1: "sorted_wrt key_le (emitted tr1)" by (rule sorted_same_key)
  show ?case
  proof (cases r1)
    case (Broke g)
    obtain tr2 st2 where rest: "for_processors n pos line is (gens[i := g]) = (tr2, st2)"
      by (cases "for_processors n pos line is (gens[i := g])")
    from Cons.prems(1) adv Broke rest have tr: "tr = tr1 @ tr2" by simp
    from Cons.prems(2) have srt: "sorted is" and ge: "\<forall>j\<in>set is. i \<le> j" by auto
    have k2: "\<forall>x\<in>set (emitted tr2). fst x = pos \<and> i \<le> fst (snd x)"
      using for_processors_tags[OF rest] emitted_tags ge by fastforce
    have "\<forall>x\<in>set (emitted tr1). \<forall>y\<in>set (emitted tr2). key_le x y"
      using k1 k2 by (auto simp: key_le_def)
    with s1 Cons.IH[OF rest srt] tr show ?thesis by (simp add: sorted_wrt_append)
  next
    case (Raised e)
    with Cons.prems(1) adv s1 show ?thesis by auto
  next
    case Hung
    with Cons.prems(1) adv s1 show ?thesis by auto
  qed
qed

lemma for_lines_sorted:
  "for_lines n pos lines gens = (tr, st) \<Longrightarrow>
     sorted_wrt key_le (emitted tr) \<and> (\<forall>x\<in>set (emitted tr). pos \<le> fst x)"
proof (induction lines arbitrary: pos gens tr st)
  case Nil
  then show ?case by simp
next
  case (Cons line lines)
  obtain tr1 st1 where fp: "for_processors n pos line [0..<length gens] gens = (tr1, st1)"
    by (cases "for_processors n pos line [0..<length gens] gens")
  have s1: "sorted_wrt key_le (emitted tr1)"
    using for_processors_sorted[OF fp] by simp
  have k1: "\<forall>x\<in>set (emitted tr1). fst x = pos"
    using for_processors_tags[OF fp] emitted_tags by fastforce
  show ?case
  proof (cases st1)
    case (Completed gens1)
    obtain tr2 st2 where rest: "for_lines n (Suc pos) lines gens1 = (tr2, st2)"
      by (cases "for_lines n (Suc pos) lines gens1")
    from Cons.prems fp Completed rest have tr: "tr = tr1 @ tr2" by simp
    from Cons.IH[OF rest] have s2: "sorted_wrt key_le (emitted tr2)"
      and k2: "\<forall>x\<in>set (emitted tr2). Suc pos \<le> fst x" by auto
    have "\<forall>x\<in>set (emitted tr1). \<forall>y\<in>set (emitted tr2). key_le x y"
      using k1 k2 by (auto simp: key_le_def)
    with s1 s2 tr k1 k2 show ?thesis by (auto simp: sorted_wrt_append)
  next
    case (Aborted e)
    with Cons.prems fp s1 k1 show ?thesis by auto
  next
    case OutOfFuel
    with Cons.prems fp s1 k1 show ?thesis by auto
  qed
qed

lemma obs_of_append [simp]: "obs_of (a @ b) = obs_of a @ obs_of b"
  by (induction a rule: obs_of.induct) simp_all

lemma prefix_obs_of: "prefix a b \<Longrightarrow> prefix (obs_of a) (obs_of b)"
  by (auto simp: prefix_def)

lemma send_loop_obs:
  "send_loop n pos i g = (tr, Broke g') \<Longrightarrow> feed_values m (agen_of g') vs = (os, e) \<Longrightarrow>
     \<exists>m'. feed_values m' g vs = (obs_of tr @ os, e)"
proof (induction n arbitrary: g tr)
  case 0
  then show ?case by simp
next
  case (Suc n)
  show ?case
  proof (cases g)
    case (Await k)
    with Suc.prems show ?thesis by auto
  next
    case (Yield y g1)
    show ?thesis
    proof (cases y)
      case None
      with Suc.prems Yield show ?thesis by simp
    next
      case (Some v)
      obtain tr1 r1 where sl: "send_loop n pos i g1 = (tr1, r1)" by (cases "send_loop n pos i g1")
      with Suc.prems(1) Yield Some have tr: "tr = Emit pos i v # tr1" and r: "r1 = Broke g'" by auto
      from Suc.IH[OF sl[unfolded r] Suc.prems(2)] obtain m1 where
        "feed_values m1 g1 vs = (obs_of tr1 @ os, e)" by blast
      then have "feed_values (Suc m1) g vs = (obs_of tr @ os, e)" using Yield Some tr by simp
      then show ?thesis by blast
    qed
  next
    case (Tau g1)
    with Suc.prems(1) have sl: "send_loop n pos i g1 = (tr, Broke g')" by simp
    from Suc.IH[OF sl Suc.prems(2)] obtain m1 where
      "feed_values m1 g1 vs = (obs_of tr @ os, e)" by blast
    then have "feed_values (Suc m1) g vs = (obs_of tr @ os, e)" using Tau by simp
    then show ?thesis by blast
  next
    case Done
    with Suc.prems show ?thesis by auto
  next
    case (Raise x)
    with Suc.prems show ?thesis by simp
  qed
qed

lemma send_loop_obs_prefix:
  "send_loop n pos i g = (tr, r) \<Longrightarrow> \<exists>m. prefix (obs_of tr) (fst (feed_values m g vs))"
proof (induction n arbitrary: g tr)
  case 0
  then show ?case by simp
next
  case (Suc n)
  show ?case
  proof (cases g)
    case (Await k)
    with Suc.prems show ?thesis by auto
  next
    case (Yield y g1)
    show ?thesis
    proof (cases y)
      case None
      with Suc.prems Yield show ?thesis by simp
    next
      case (Some v)
      obtain tr1 r1 where sl: "send_loop n pos i g1 = (tr1, r1)" by (cases "send_loop n pos i g1")
      with Suc.prems(1) Yield Some have tr: "tr = Emit pos i v # tr1" and r: "r1 = r" by auto
      from Suc.IH[OF sl[unfolded r]] obtain m1 where
        "prefix (obs_of tr1) (fst (feed_values m1 g1 vs))" by blast
      then have "prefix (obs_of tr) (fst (feed_values (Suc m1) g vs))"
        using Yield Some tr by (cases "feed_values m1 g1 vs") simp
      then show ?thesis by blast
    qed
  next
    case (Tau g1)
    with Suc.prems(1) have sl: "send_loop n pos i g1 = (tr, r)" by simp
    from Suc.IH[OF sl] obtain m1 where
      "prefix (obs_of tr) (fst (feed_values m1 g1 vs))" by blast
    then have "prefix (obs_of tr) (fst (feed_values (Suc m1) g vs))" using Tau by simp
    then show ?thesis by blast
  next
    case Done
    with Suc.prems show ?thesis by auto
  next
    case (Raise x)
    with Suc.prems show ?thesis by simp
  qed
qed

lemma solo_obs:
  "solo n i pos lines g = (tr, st) \<Longrightarrow> \<forall>g0. g \<noteq> Fresh g0 \<Longrightarrow>
     (\<exists>m. prefix (obs_of tr) (fst (feed_values m (agen_of g) lines))) \<and>
     (\<forall>g'. st = Completed g' \<longrightarrow>
        (\<exists>m. feed_values m (agen_of g) lines
               = (obs_of tr, if terminated g' then Ended else Waiting)))"
proof (induction lines arbitrary: pos g tr st)
  case Nil
  show ?case
  proof (cases g)
    case (Fresh g0)
    with Nil.prems show ?thesis by simp
  next
    case (Suspended k)
    with Nil.prems have "tr = []" "st = Completed (Suspended k)" by auto
    moreover have "feed_values (Suc 0) (Await k) [] = ([], Waiting)" by simp
    ultimately show ?thesis using Suspended by (intro conjI allI impI exI[of _ "Suc 0"]) simp_all
  next
    case GNone
    with Nil.prems have "tr = []" "st = Completed GNone" by auto
    moreover have "feed_values (Suc 0) Done [] = ([], Ended)" by simp
    ultimately show ?thesis using GNone by (intro conjI allI impI exI[of _ "Suc 0"]) simp_all
  qed
next
  case (Cons l ls)
  show ?case
  proof (cases g)
    case (Fresh g0)
    with Cons.prems show ?thesis by simp
  next
    case GNone
    with Cons.prems(1) have "tr = []" "st = Completed GNone" by (auto simp: solo_GNone)
    moreover have "feed_values (Suc 0) Done (l # ls) = ([], Ended)" by simp
    ultimately show ?thesis using GNone by (intro conjI allI impI exI[of _ "Suc 0"]) simp_all
  next
    case (Suspended k)
    obtain tr1 r where sl: "send_loop n pos i (k l) = (tr1, r)"
      by (cases "send_loop n pos i (k l)")
    have step: "feed_values (Suc m) (Await k) (l # ls) =
        (Asked l # fst (feed_values m (k l) ls), snd (feed_values m (k l) ls))" for m
      by (cases "feed_values m (k l) ls") simp
    show ?thesis
    proof (cases r)
      case (Broke g')
      obtain tr2 st2 where s2: "solo n i (Suc pos) ls g' = (tr2, st2)"
        by (cases "solo n i (Suc pos) ls g'")
      from Cons.prems(1) Suspended sl Broke s2
      have tr: "tr = Resume pos i l # tr1 @ tr2" and st: "st = st2" by auto
      from send_loop_shape[OF sl] Broke have nf: "\<forall>g0. g' \<noteq> Fresh g0" by blast
      note IH = Cons.IH[OF s2 nf]
      have A: "\<exists>m. prefix (obs_of tr) (fst (feed_values m (agen_of g) (l # ls)))"
      proof -
        from IH obtain m where p: "prefix (obs_of tr2) (fst (feed_values m (agen_of g') ls))"
          by blast
        obtain os e where fv: "feed_values m (agen_of g') ls = (os, e)"
          by (cases "feed_values m (agen_of g') ls")
        from send_loop_obs[OF sl[unfolded Broke] fv] obtain m' where
          m': "feed_values m' (k l) ls = (obs_of tr1 @ os, e)" by blast
        from p fv have "prefix (obs_of tr1 @ obs_of tr2) (obs_of tr1 @ os)" by simp
        with m' step[of m'] tr Suspended
        have "prefix (obs_of tr) (fst (feed_values (Suc m') (agen_of g) (l # ls)))" by simp
        then show ?thesis by blast
      qed
      have B: "\<exists>m. feed_values m (agen_of g) (l # ls)
               = (obs_of tr, if terminated g'' then Ended else Waiting)"
        if "st = Completed g''" for g''
      proof -
        from IH that st obtain m where
          fv: "feed_values m (agen_of g') ls
                 = (obs_of tr2, if terminated g'' then Ended else Waiting)" by blast
        from send_loop_obs[OF sl[unfolded Broke] fv] obtain m' where
          m': "feed_values m' (k l) ls
                 = (obs_of tr1 @ obs_of tr2, if terminated g'' then Ended else Waiting)" by blast
        with step[of m'] tr Suspended
        have "feed_values (Suc m') (agen_of g) (l # ls)
               = (obs_of tr, if terminated g'' then Ended else Waiting)" by simp
        then show ?thesis by blast
      qed
      from A B show ?thesis by blast
    next
      case (Raised x)
      with Cons.prems(1) Suspended sl have tr: "tr = Resume pos i l # tr1" and st: "st = Aborted x"
        by auto
      from send_loop_obs_prefix[OF sl, of ls] obtain m where
        "prefix (obs_of tr1) (fst (feed_values m (k l) ls))" by blast
      with step[of m] tr Suspended
      have "prefix (obs_of tr) (fst (feed_values (Suc m) (agen_of g) (l # ls)))" by simp
      with st show ?thesis by blast
    next
      case Hung
      with Cons.prems(1) Suspended sl have tr: "tr = Resume pos i l # tr1" and st: "st = OutOfFuel"
        by auto
      from send_loop_obs_prefix[OF sl, of ls] obtain m where
        "prefix (obs_of tr1) (fst (feed_values m (k l) ls))" by blast
      with step[of m] tr Suspended
      have "prefix (obs_of tr) (fst (feed_values (Suc m) (agen_of g) (l # ls)))" by simp
      with st show ?thesis by blast
    qed
  qed
qed

lemma solo_Fresh_obs:
  assumes "solo n i pos (Null # ls) (Fresh g) = (tr, st)"
  shows "\<exists>m. prefix (obs_of tr) (fst (feed_values m g ls))"
    and "st = Completed g'' \<Longrightarrow>
          \<exists>m. feed_values m g ls = (obs_of tr, if terminated g'' then Ended else Waiting)"
proof -
  obtain tr1 r where sl: "send_loop n pos i g = (tr1, r)" by (cases "send_loop n pos i g")
  have "(\<exists>m. prefix (obs_of tr) (fst (feed_values m g ls))) \<and>
     (\<forall>g''. st = Completed g'' \<longrightarrow>
        (\<exists>m. feed_values m g ls = (obs_of tr, if terminated g'' then Ended else Waiting)))"
  proof (cases r)
    case (Broke g')
    obtain tr2 st2 where s2: "solo n i (Suc pos) ls g' = (tr2, st2)"
      by (cases "solo n i (Suc pos) ls g'")
    from assms sl Broke s2 have tr: "tr = Start pos i Null # tr1 @ tr2" and st: "st = st2" by auto
    from send_loop_shape[OF sl] Broke have nf: "\<forall>g0. g' \<noteq> Fresh g0" by blast
    note S = solo_obs[OF s2 nf]
    have A: "\<exists>m. prefix (obs_of tr) (fst (feed_values m g ls))"
    proof -
      from S obtain m where p: "prefix (obs_of tr2) (fst (feed_values m (agen_of g') ls))" by blast
      obtain os e where fv: "feed_values m (agen_of g') ls = (os, e)"
        by (cases "feed_values m (agen_of g') ls")
      from send_loop_obs[OF sl[unfolded Broke] fv] obtain m' where
        m': "feed_values m' g ls = (obs_of tr1 @ os, e)" by blast
      from p fv have "prefix (obs_of tr1 @ obs_of tr2) (obs_of tr1 @ os)" by simp
      with m' tr have "prefix (obs_of tr) (fst (feed_values m' g ls))" by simp
      then show ?thesis by blast
    qed
    have B: "\<exists>m. feed_values m g ls = (obs_of tr, if terminated g'' then Ended else Waiting)"
      if "st = Completed g''" for g''
    proof -
      from S that st obtain m where
        fv: "feed_values m (agen_of g') ls
               = (obs_of tr2, if terminated g'' then Ended else Waiting)" by blast
      from send_loop_obs[OF sl[unfolded Broke] fv] tr show ?thesis by simp
    qed
    from A B show ?thesis by blast
  next
    case (Raised x)
    with assms sl have tr: "tr = Start pos i Null # tr1" and st: "st = Aborted x" by auto
    from send_loop_obs_prefix[OF sl, of ls] tr st show ?thesis by simp
  next
    case Hung
    with assms sl have tr: "tr = Start pos i Null # tr1" and st: "st = OutOfFuel" by auto
    from send_loop_obs_prefix[OF sl, of ls] tr st show ?thesis by simp
  qed
  then show "\<exists>m. prefix (obs_of tr) (fst (feed_values m g ls))"
    and "st = Completed g'' \<Longrightarrow>
          \<exists>m. feed_values m g ls = (obs_of tr, if terminated g'' then Ended else Waiting)"
    by blast+
qed


lemma in_turns_append: "in_turns c a \<Longrightarrow> (\<forall>c'. in_turns c' b) \<Longrightarrow> in_turns c (a @ b)"
  by (induction c a rule: in_turns.induct) simp_all

lemma in_turns_emits:
  "in_turns (Some (pos, i)) (map (Emit pos i) ys @ tr) = in_turns (Some (pos, i)) tr"
  by (induction ys) simp_all

lemma advance_in_turns:
  assumes "advance n pos i g line = (tr, r)"
  shows "in_turns c tr"
proof (cases g)
  case GNone
  with assms show ?thesis by simp
next
  case (Fresh g0)
  with advance_shape(1)[OF assms] obtain ys where
    "tr = Start pos i line # map (Emit pos i) ys @ (if r = Broke GNone then [Stop pos i] else [])"
    by auto
  then show ?thesis by (simp add: in_turns_emits)
next
  case (Suspended k)
  with advance_shape(1)[OF assms] obtain ys where
    "tr = Resume pos i line # map (Emit pos i) ys @ (if r = Broke GNone then [Stop pos i] else [])"
    by auto
  then show ?thesis by (simp add: in_turns_emits)
qed

lemma for_processors_in_turns:
  "for_processors n pos line is gens = (tr, st) \<Longrightarrow> in_turns c tr"
proof (induction "is" arbitrary: gens tr st c)
  case Nil
  then show ?case by simp
next
  case (Cons i "is")
  obtain tr1 r1 where adv: "advance n pos i (gens ! i) line = (tr1, r1)"
    by (cases "advance n pos i (gens ! i) line")
  note t1 = advance_in_turns[OF adv]
  show ?case
  proof (cases r1)
    case (Broke g)
    obtain tr2 st2 where rest: "for_processors n pos line is (gens[i := g]) = (tr2, st2)"
      by (cases "for_processors n pos line is (gens[i := g])")
    from Cons.prems adv Broke rest have tr: "tr = tr1 @ tr2" by simp
    from Cons.IH[OF rest] have "\<forall>c'. in_turns c' tr2" by blast
    with t1[of c] tr show ?thesis by (simp add: in_turns_append)
  next
    case (Raised e)
    with Cons.prems adv t1 show ?thesis by auto
  next
    case Hung
    with Cons.prems adv t1 show ?thesis by auto
  qed
qed

lemma for_lines_in_turns:
  "for_lines n pos lines gens = (tr, st) \<Longrightarrow> in_turns c tr"
proof (induction lines arbitrary: pos gens tr st c)
  case Nil
  then show ?case by simp
next
  case (Cons line lines)
  obtain tr1 st1 where fp: "for_processors n pos line [0..<length gens] gens = (tr1, st1)"
    by (cases "for_processors n pos line [0..<length gens] gens")
  note t1 = for_processors_in_turns[OF fp]
  show ?case
  proof (cases st1)
    case (Completed gens1)
    obtain tr2 st2 where rest: "for_lines n (Suc pos) lines gens1 = (tr2, st2)"
      by (cases "for_lines n (Suc pos) lines gens1")
    from Cons.prems fp Completed rest have tr: "tr = tr1 @ tr2" by simp
    from Cons.IH[OF rest] have "\<forall>c'. in_turns c' tr2" by blast
    with t1[of c] tr show ?thesis by (simp add: in_turns_append)
  next
    case (Aborted e)
    with Cons.prems fp t1 show ?thesis by auto
  next
    case OutOfFuel
    with Cons.prems fp t1 show ?thesis by auto
  qed
qed

lemma sorted_same_turn:
  "\<forall>e\<in>set l. pos_of e = pos \<and> proc_of e = i \<Longrightarrow> sorted_wrt turn_le l"
  by (induction l) (auto simp: turn_le_def)

lemma for_processors_turn_sorted:
  "for_processors n pos line is gens = (tr, st) \<Longrightarrow> sorted is \<Longrightarrow> sorted_wrt turn_le tr"
proof (induction "is" arbitrary: gens tr st)
  case Nil
  then show ?case by simp
next
  case (Cons i "is")
  obtain tr1 r1 where adv: "advance n pos i (gens ! i) line = (tr1, r1)"
    by (cases "advance n pos i (gens ! i) line")
  note k1 = advance_proc_of[OF adv]
  then have s1: "sorted_wrt turn_le tr1" by (intro sorted_same_turn[of _ pos i]) blast
  show ?case
  proof (cases r1)
    case (Broke g)
    obtain tr2 st2 where rest: "for_processors n pos line is (gens[i := g]) = (tr2, st2)"
      by (cases "for_processors n pos line is (gens[i := g])")
    from Cons.prems(1) adv Broke rest have tr: "tr = tr1 @ tr2" by simp
    from Cons.prems(2) have srt: "sorted is" and ge: "\<forall>j\<in>set is. i \<le> j" by auto
    have k2: "\<forall>e\<in>set tr2. pos_of e = pos \<and> i \<le> proc_of e"
      using for_processors_tags[OF rest] ge by blast
    have "\<forall>x\<in>set tr1. \<forall>y\<in>set tr2. turn_le x y"
      using k1 k2 by (auto simp: turn_le_def)
    with s1 Cons.IH[OF rest srt] tr show ?thesis by (simp add: sorted_wrt_append)
  next
    case (Raised e)
    with Cons.prems(1) adv s1 show ?thesis by auto
  next
    case Hung
    with Cons.prems(1) adv s1 show ?thesis by auto
  qed
qed

lemma for_lines_turn_sorted:
  "for_lines n pos lines gens = (tr, st) \<Longrightarrow> sorted_wrt turn_le tr"
proof (induction lines arbitrary: pos gens tr st)
  case Nil
  then show ?case by simp
next
  case (Cons line lines)
  obtain tr1 st1 where fp: "for_processors n pos line [0..<length gens] gens = (tr1, st1)"
    by (cases "for_processors n pos line [0..<length gens] gens")
  have s1: "sorted_wrt turn_le tr1"
    using for_processors_turn_sorted[OF fp] by simp
  have k1: "\<forall>e\<in>set tr1. pos_of e = pos"
    using for_processors_tags[OF fp] by blast
  show ?case
  proof (cases st1)
    case (Completed gens1)
    obtain tr2 st2 where rest: "for_lines n (Suc pos) lines gens1 = (tr2, st2)"
      by (cases "for_lines n (Suc pos) lines gens1")
    from Cons.prems fp Completed rest have tr: "tr = tr1 @ tr2" by simp
    from Cons.IH[OF rest] have s2: "sorted_wrt turn_le tr2" .
    from for_lines_procs[OF rest] have k2: "\<forall>e\<in>set tr2. Suc pos \<le> pos_of e" by blast
    have "\<forall>x\<in>set tr1. \<forall>y\<in>set tr2. turn_le x y"
      using k1 k2 by (auto simp: turn_le_def)
    with s1 s2 tr show ?thesis by (simp add: sorted_wrt_append)
  next
    case (Aborted e)
    with Cons.prems fp s1 show ?thesis by auto
  next
    case OutOfFuel
    with Cons.prems fp s1 show ?thesis by auto
  qed
qed

lemma run_obs_prefix:
  assumes "i < length ps"
  shows "\<exists>m. prefix (obs_of (events_of i (fst (run_processors n ps xs))))
               (fst (feed_values m (ps ! i) (map Item xs @ [Sentinel])))"
proof -
  from assms obtain trS stS where
    s: "solo n i 0 (effective_feed xs) (Fresh (ps ! i)) = (trS, stS)"
      "prefix (events_of i (fst (run_processors n ps xs))) trS"
    by (rule run_projection)
  from s(1) have "solo n i 0 (Null # map Item xs @ [Sentinel]) (Fresh (ps ! i)) = (trS, stS)"
    by (simp add: effective_feed_def)
  from solo_Fresh_obs(1)[OF this] obtain m where
    "prefix (obs_of trS) (fst (feed_values m (ps ! i) (map Item xs @ [Sentinel])))" by blast
  with prefix_obs_of[OF s(2)] show ?thesis by (meson prefix_order.trans)
qed

lemma run_obs_completed:
  assumes "snd (run_processors n ps xs) = Completed gens" and "i < length ps"
  shows "\<exists>m. feed_values m (ps ! i) (map Item xs @ [Sentinel]) =
            (obs_of (events_of i (fst (run_processors n ps xs))),
             if terminated (gens ! i) then Ended else Waiting)"
proof -
  from assms obtain trS stS where
    s: "solo n i 0 (effective_feed xs) (Fresh (ps ! i)) = (trS, stS)"
    and eq: "events_of i (fst (run_processors n ps xs)) = trS" "stS = Completed (gens ! i)"
    using run_projection[of i ps n xs] by metis
  from s have "solo n i 0 (Null # map Item xs @ [Sentinel]) (Fresh (ps ! i)) = (trS, stS)"
    by (simp add: effective_feed_def)
  from solo_Fresh_obs(2)[OF this eq(2)] eq(1) show ?thesis by simp
qed

lemma chatty_run:
  "run_processors 4 chatty_processors [()] =
     ([Start 0 0 Null, Emit 0 0 1, Emit 0 0 2, Start 0 1 Null, Emit 0 1 5, Emit 0 1 6,
       Resume 1 0 (Item ()), Emit 1 0 3, Emit 1 0 4,
       Resume 1 1 (Item ()), Emit 1 1 7, Emit 1 1 8,
       Resume 2 0 Sentinel, Stop 2 0, Resume 2 1 Sentinel, Stop 2 1],
      Completed [GNone, GNone])"
  by (simp add: chatty_processors_def run_simps eval_nat_numeral)

text \<open>
  Claim C2. The output events of a run, each with the position of the line that was
  being processed and the index of its processor, are in the order of these keys: first
  by position, then by index; and so are all the events of the run. Every yield is of
  the turn that the latest \<^verbatim>\<open>send\<close> opened, so the events of one line are not interleaved
  between processors, and what a processor yields in a turn comes before anything is
  sent to the next processor. What a processor has done in the run, the awaits answered
  and the values yielded, in the order of the run, is what its generator does when it is
  driven on its own with the lines of the feed, in the generator's own order: an
  initial part of it in every run, and all of it, up to the generator's return or its
  next await, when the run completes. The caller receives the output events without
  the positions.
\<close>

theorem output_events_ordered:
  "sorted_wrt key_le (emitted (fst (run_processors n ps xs))) \<and>
   yielded (fst (run_processors n ps xs)) = map snd (emitted (fst (run_processors n ps xs))) \<and>
   sorted_wrt turn_le (fst (run_processors n ps xs)) \<and>
   in_turns None (fst (run_processors n ps xs)) \<and>
   (i < length ps \<longrightarrow>
      (\<exists>m. prefix (obs_of (events_of i (fst (run_processors n ps xs))))
              (fst (feed_values m (ps ! i) (map Item xs @ [Sentinel]))))) \<and>
   (\<forall>gens. snd (run_processors n ps xs) = Completed gens \<and> i < length ps \<longrightarrow>
      (\<exists>m. feed_values m (ps ! i) (map Item xs @ [Sentinel]) =
             (obs_of (events_of i (fst (run_processors n ps xs))),
              if terminated (gens ! i) then Ended else Waiting)))"
proof -
  obtain tr st where r: "for_lines n 0 (effective_feed xs) (map Fresh ps) = (tr, st)"
    by (cases "for_lines n 0 (effective_feed xs) (map Fresh ps)")
  then have tr: "fst (run_processors n ps xs) = tr" by (simp add: run_processors_def)
  from for_lines_sorted[OF r] tr
  have A: "sorted_wrt key_le (emitted (fst (run_processors n ps xs)))" by simp
  have B: "yielded (fst (run_processors n ps xs))
      = map snd (emitted (fst (run_processors n ps xs)))" by (simp add: yielded_def)
  from for_lines_turn_sorted[OF r] tr
  have C: "sorted_wrt turn_le (fst (run_processors n ps xs))" by simp
  from for_lines_in_turns[OF r] tr
  have D: "in_turns None (fst (run_processors n ps xs))" by simp
  have E: "i < length ps \<longrightarrow>
      (\<exists>m. prefix (obs_of (events_of i (fst (run_processors n ps xs))))
              (fst (feed_values m (ps ! i) (map Item xs @ [Sentinel]))))"
    using run_obs_prefix by blast
  have F: "\<forall>gens. snd (run_processors n ps xs) = Completed gens \<and> i < length ps \<longrightarrow>
      (\<exists>m. feed_values m (ps ! i) (map Item xs @ [Sentinel]) =
             (obs_of (events_of i (fst (run_processors n ps xs))),
              if terminated (gens ! i) then Ended else Waiting))"
    using run_obs_completed by blast
  from A B C D E F show ?thesis by blast
qed

theorem output_events_ordered_witness:
  "(0::nat) < length chatty_processors \<and>
   snd (run_processors 4 chatty_processors [()]) = Completed [GNone, GNone] \<and>
   yielded (fst (run_processors 4 chatty_processors [()]))
     = [(0, 1), (0, 2), (1, 5), (1, 6), (0, 3), (0, 4), (1, 7), (1, 8)] \<and>
   emitted (fst (run_processors 4 chatty_processors [()]))
     = [(0, 0, 1), (0, 0, 2), (0, 1, 5), (0, 1, 6), (1, 0, 3), (1, 0, 4), (1, 1, 7), (1, 1, 8)] \<and>
   sorted_wrt key_le (emitted (fst (run_processors 4 chatty_processors [()]))) \<and>
   in_turns None (fst (run_processors 4 chatty_processors [()])) \<and>
   obs_of (events_of 0 (fst (run_processors 4 chatty_processors [()])))
     = [Elem (Some 1), Elem (Some 2), Asked (Item ()), Elem (Some 3), Elem (Some 4),
        Asked Sentinel] \<and>
   feed_values 7 (chatty_processors ! 0) (map Item [()] @ [Sentinel])
     = ([Elem (Some 1), Elem (Some 2), Asked (Item ()), Elem (Some 3), Elem (Some 4),
         Asked Sentinel], Ended)"
  using output_events_ordered [of 4 chatty_processors "[()]" 0]
  by (simp only: chatty_run fst_conv snd_conv)
     (simp add: yielded_def key_le_def events_of_def chatty_processors_def read_input_line_def
        eval_nat_numeral)

section \<open>Empty input\<close>

lemma exclaim_empty_run:
  "run_processors (Suc (Suc m)) [pipe (exclaim_from repr AtHello) (read_input_lines Sentinel)] []
     = ([Start 0 0 Null, Emit 0 0 ''Hello world!'', Resume 1 0 Sentinel, Stop 1 0],
        Completed [GNone])"
  by (simp add: run_simps)

text \<open>
  Claim C7. With no processor and no input, \<^verbatim>\<open>gather_processors\<close> yields nothing. With
  \<^verbatim>\<open>exclaim_async_iterable\<close> alone and no input it yields the one pair
  \<^verbatim>\<open>(0, 'Hello world!')\<close> and ends; that pair is yielded while the leading \<^verbatim>\<open>None\<close> is
  processed, before any line is sent into an await, whatever the input is.
\<close>

theorem exclaim_hello_before_input:
  "1 < n \<Longrightarrow>
     gather_processors n [] [] = ([], Completed ()) \<and>
     gather_processors n [exclaim_async_iterable repr] [] = ([(0, ''Hello world!'')], Completed ()) \<and>
     fst (run_processors n [pipe (exclaim_from repr AtHello) (read_input_lines Sentinel)] [])
       = [Start 0 0 Null, Emit 0 0 ''Hello world!'', Resume 1 0 Sentinel, Stop 1 0] \<and>
     take 2 (fst (run_processors n [pipe (exclaim_from repr AtHello) (read_input_lines Sentinel)] xs))
       = [Start 0 0 Null, Emit 0 0 ''Hello world!'']"
proof -
  assume "1 < n"
  then obtain m where n: "n = Suc (Suc m)" by (metis One_nat_def Suc_lessE less_Suc_eq_0_disj not_less_eq less_nat_zero_code)
  have A: "gather_processors n [] [] = ([], Completed ())"
    by (simp add: gather_processors_def run_simps yielded_def)
  have B: "gather_processors n [exclaim_async_iterable repr] [] = ([(0, ''Hello world!'')], Completed ())"
    unfolding n gather_processors_def
    by (simp add: exclaim_async_iterable_def syncgenerator_def exclaim_empty_run yielded_def)
  have C: "fst (run_processors n [pipe (exclaim_from repr AtHello) (read_input_lines Sentinel)] [])
       = [Start 0 0 Null, Emit 0 0 ''Hello world!'', Resume 1 0 Sentinel, Stop 1 0]"
    unfolding n by (simp add: exclaim_empty_run)
  have D: "take 2 (fst (run_processors n [pipe (exclaim_from repr AtHello) (read_input_lines Sentinel)] xs))
       = [Start 0 0 Null, Emit 0 0 ''Hello world!'']"
    unfolding n by (simp add: run_simps split: prod.splits status.splits)
  from A B C D show ?thesis by simp
qed

theorem exclaim_hello_before_input_witness:
  "(1::nat) < 2 \<and>
   gather_processors 2 [exclaim_async_iterable quoted ::
       (string token, string token, unit) iterable \<Rightarrow> (string token, string option, unit) generator] []
     = ([(0, ''Hello world!'')], Completed ())"
proof
  show "(1::nat) < 2" by simp
  then show "gather_processors 2 [exclaim_async_iterable quoted ::
       (string token, string token, unit) iterable \<Rightarrow> (string token, string option, unit) generator] []
     = ([(0, ''Hello world!'')], Completed ())"
    by (rule exclaim_hello_before_input [THEN conjunct2, THEN conjunct1])
qed

end
